theory Spec2Isabelle
  imports Complex_Main
begin

unbundle bit_operations_syntax

section \<open>Caller-ID decoding (ciddeco.c): data model\<close>

text \<open>
  The protocol constants of \<^verbatim>\<open>ciddeco.c\<close>: the two message formats, the data-type
  markers and the values of \<^verbatim>\<open>sawflag\<close>, the state of the decoding state machine.
\<close>

abbreviation (input) MDMF :: int where "MDMF \<equiv> 0x80"
abbreviation (input) SDMF :: int where "SDMF \<equiv> 0x04"

abbreviation (input) DATE_TIME :: int where "DATE_TIME \<equiv> 0x01"
abbreviation (input) NAME :: int where "NAME \<equiv> 0x07"
abbreviation (input) NO_NAME :: int where "NO_NAME \<equiv> 0x08"
abbreviation (input) NUM :: int where "NUM \<equiv> 0x02"
abbreviation (input) NO_NUM :: int where "NO_NUM \<equiv> 0x04"

abbreviation (input) MESSAGE_TYPE :: int where "MESSAGE_TYPE \<equiv> 0"
abbreviation (input) MESSAGE_LENGTH :: int where "MESSAGE_LENGTH \<equiv> 1"
abbreviation (input) DATA_TYPE :: int where "DATA_TYPE \<equiv> 2"
abbreviation (input) DATA_LENGTH :: int where "DATA_LENGTH \<equiv> 3"
abbreviation (input) DATA :: int where "DATA \<equiv> 4"
abbreviation (input) CHECKSUM :: int where "CHECKSUM \<equiv> 5"
abbreviation (input) UNKNOWN :: int where "UNKNOWN \<equiv> 10"

text \<open>
  \<^verbatim>\<open>fsk_data\<close> of \<^verbatim>\<open>fskmodem.h\<close>. The three filters hold floating-point
  coefficients and histories; no function of \<^verbatim>\<open>ciddeco.c\<close> reads them, so their
  state is a type parameter.
\<close>

record 'flt fsk_data =
  nbit :: int
  parity :: int
  instop :: int
  ispb :: int
  fsk_std :: int
  xi0 :: int
  xi1 :: int
  xi2 :: int
  state :: int
  pllispb :: int
  pllids :: int
  pllispb2 :: int
  icont :: int
  pll_round_off :: int
  filters :: 'flt

text \<open>
  \<^verbatim>\<open>struct callerid_state\<close> of \<^verbatim>\<open>ciddeco.h\<close>, with the fields that
  \<^verbatim>\<open>ciddeco.c\<close> uses. \<^verbatim>\<open>rawdata\<close> is an array of 256 ints,
  \<^verbatim>\<open>oldstuff\<close> an array of 1000 samples, \<^verbatim>\<open>oldlen\<close> a length in bytes;
  \<^verbatim>\<open>name\<close>, \<^verbatim>\<open>number\<close> (here \<open>cid_name\<close>, \<open>cid_number\<close>) and
  \<^verbatim>\<open>date_time\<close> are arrays of 64 chars.
\<close>

record 'flt callerid_state =
  fskd :: "'flt fsk_data"
  rawdata :: "int list"
  oldstuff :: "int list"
  oldlen :: int
  cksum :: int
  cid_name :: "char list"
  cid_number :: "char list"
  date_time :: "char list"
  sawflag :: int

text \<open>
  The function-local \<^verbatim>\<open>static\<close> variables of \<^verbatim>\<open>decode_CID_msg\<close>. They belong to
  the process, not to a \<^verbatim>\<open>callerid_state\<close>: \<^verbatim>\<open>callerid_new\<close> does not touch them.
  At program start they are 0 (\<^verbatim>\<open>data_field\<close> has no initialiser and is 0 as well).
\<close>

record decoder_statics =
  name_field :: int
  number_field :: int
  msg_type :: int
  msg_off :: int
  data_field :: int

definition statics_at_start :: decoder_statics where
  "statics_at_start =
     \<lparr>name_field = 0, number_field = 0, msg_type = 0, msg_off = 0, data_field = 0\<rparr>"

text \<open>
  What C leaves undefined and the code does not exclude: an access outside an array,
  a division by zero, a conversion that does not fit. The model stops there with the
  fault; a fault is not an error return of the program.
\<close>

datatype fault =
    Rawdata_Index int
  | Months_Index int
  | Field_Overflow int
  | Oldstuff_Overflow int
  | Sample_Buffer int
  | Division_By_Zero
  | Int_Conversion

section \<open>The message decoder\<close>

text \<open>
  \<^verbatim>\<open>decode_CID_msg(cid, data_byte)\<close>. The result is the return value, the line written
  to standard output (without its line breaks; the tracing on standard error is left
  out), and the updated state and statics. The byte is stored at
  \<^verbatim>\<open>rawdata[msg_off++]\<close> before the state is looked at; there is no check of
  \<^verbatim>\<open>msg_off\<close> against the 256 entries of \<^verbatim>\<open>rawdata\<close>, so a store outside is the
  fault \<open>Rawdata_Index\<close>.
\<close>

definition decode_CID_msg ::
  "'flt callerid_state \<Rightarrow> decoder_statics \<Rightarrow> int
     \<Rightarrow> fault + (int \<times> string \<times> 'flt callerid_state \<times> decoder_statics)" where
  "decode_CID_msg cid0 st0 data_byte =
    (let a = data_byte in
     if msg_off st0 < 0 \<or> int (length (rawdata cid0)) \<le> msg_off st0
     then Inl (Rawdata_Index (msg_off st0))
     else
      let cid = cid0\<lparr>rawdata := (rawdata cid0)[nat (msg_off st0) := a]\<rparr>;
          st = st0\<lparr>msg_off := msg_off st0 + 1\<rparr>
      in
      if sawflag cid = MESSAGE_TYPE then
        (if a = MDMF then
           Inr (0, [], cid\<lparr>sawflag := MESSAGE_LENGTH, cksum := cksum cid + data_byte\<rparr>,
                st\<lparr>msg_type := MDMF\<rparr>)
         else if a = SDMF then
           Inr (0, [], cid\<lparr>sawflag := MESSAGE_LENGTH, cksum := cksum cid + data_byte\<rparr>,
                st\<lparr>msg_type := SDMF\<rparr>)
         else
           Inr (0, [], cid\<lparr>sawflag := UNKNOWN, cksum := cksum cid + data_byte\<rparr>, st))
      else if sawflag cid = MESSAGE_LENGTH then
        Inr (0, [], cid\<lparr>sawflag := DATA_TYPE, cksum := cksum cid + data_byte\<rparr>, st)
      else if sawflag cid = DATA_TYPE then
        (if a = DATE_TIME then
           Inr (0, [], cid\<lparr>sawflag := DATA_LENGTH, cksum := cksum cid + data_byte\<rparr>, st)
         else if a = NUM \<or> a = NO_NUM then
           Inr (0, [], cid\<lparr>sawflag := DATA_LENGTH, cksum := cksum cid + data_byte\<rparr>,
                st\<lparr>number_field := 1\<rparr>)
         else if a = NAME \<or> a = NO_NAME then
           Inr (0, [], cid\<lparr>sawflag := DATA_LENGTH, cksum := cksum cid + data_byte\<rparr>,
                st\<lparr>name_field := 1\<rparr>)
         else
           Inr (0, [], cid\<lparr>sawflag := UNKNOWN, cksum := cksum cid + data_byte\<rparr>, st))
      else if sawflag cid = DATA_LENGTH then
        Inr (0, [], cid\<lparr>sawflag := DATA, cksum := cksum cid + data_byte\<rparr>,
             st\<lparr>data_field := a\<rparr>)
      else if sawflag cid = DATA then
        (let st = st\<lparr>data_field := data_field st - 1\<rparr> in
         if data_field st = 0 then
           (if msg_type st = MDMF \<and> name_field st \<noteq> 0 \<and> number_field st \<noteq> 0 then
              Inr (0, [], cid\<lparr>sawflag := CHECKSUM, cksum := cksum cid + data_byte\<rparr>,
                   st\<lparr>name_field := 0, number_field := 0\<rparr>)
            else if msg_type st = SDMF \<and> number_field st \<noteq> 0 then
              Inr (0, [], cid\<lparr>sawflag := CHECKSUM, cksum := cksum cid + data_byte\<rparr>,
                   st\<lparr>number_field := 0\<rparr>)
            else
              Inr (0, [], cid\<lparr>sawflag := DATA_TYPE, cksum := cksum cid + data_byte\<rparr>, st))
         else
           Inr (0, [], cid\<lparr>cksum := cksum cid + data_byte\<rparr>, st))
      else if sawflag cid = CHECKSUM then
        (let st = st\<lparr>msg_off := 0\<rparr> in
         if data_byte = 256 - (cksum cid AND 0xff)
         then Inr (1, ''Checksum Passed!!'', cid, st)
         else Inr (1, ''Checksum Failed!!'', cid, st))
      else
        Inr (-1, ''UNKNOWN'', cid, st))"

text \<open>
  The bytes of one spill, as the loop of \<^verbatim>\<open>callerid_feed\<close> hands them to the decoder:
  each byte that the demodulator delivers goes to \<^verbatim>\<open>decode_CID_msg\<close>; a result of
  \<^verbatim>\<open>-1\<close> ends the call with \<^verbatim>\<open>-1\<close>, any other non-zero result ends it with
  \<^verbatim>\<open>1\<close>, and 0 goes on with the next byte. The bytes not looked at are returned too.
\<close>

fun decode_bytes ::
  "'flt callerid_state \<Rightarrow> decoder_statics \<Rightarrow> int list
     \<Rightarrow> fault + (int \<times> string \<times> 'flt callerid_state \<times> decoder_statics \<times> int list)" where
  "decode_bytes cid st [] = Inr (0, [], cid, st, [])"
| "decode_bytes cid st (b # bs) =
     (case decode_CID_msg cid st b of
        Inl f \<Rightarrow> Inl f
      | Inr (res, out, cid', st') \<Rightarrow>
          if res = -1 then Inr (-1, out, cid', st', bs)
          else if res \<noteq> 0 then Inr (1, out, cid', st', bs)
          else decode_bytes cid' st' bs)"

text \<open>
  The state that \<^verbatim>\<open>calloc\<close> gives \<^verbatim>\<open>callerid_new\<close>: every field zero. The
  demodulator's part is a parameter here, \<^verbatim>\<open>callerid_new\<close> fills it in.
\<close>

abbreviation (input) NUL :: char where "NUL \<equiv> CHR 0x00"

definition calloc_cid :: "'flt fsk_data \<Rightarrow> 'flt callerid_state" where
  "calloc_cid fd =
     \<lparr>fskd = fd, rawdata = replicate 256 0, oldstuff = replicate 1000 0, oldlen = 0,
      cksum = 0, cid_name = replicate 64 NUL, cid_number = replicate 64 NUL,
      date_time = replicate 64 NUL, sawflag = 0\<rparr>"

section \<open>Field extraction\<close>

text \<open>
  \<^verbatim>\<open>cid_data\<close> of \<^verbatim>\<open>ciddeco.h\<close>: four arrays of 20 chars. \<^verbatim>\<open>main\<close> obtains it
  from \<^verbatim>\<open>malloc\<close>, so its content before \<^verbatim>\<open>get_CID_info\<close> is whatever the
  caller passes. The string that C reads from such an array ends before the first NUL.
\<close>

record cid_data =
  date :: "char list"
  call_time :: "char list"
  name :: "char list"
  number :: "char list"

definition cstr :: "char list \<Rightarrow> string" where
  "cstr buf = takeWhile (\<lambda>c. c \<noteq> NUL) buf"

definition months :: "string list" where
  "months = [''January'', ''February'', ''March'', ''April'', ''May'', ''June'',
             ''July'', ''August'', ''September'', ''October'', ''November'', ''December'']"

text \<open>\<^verbatim>\<open>cid->rawdata[i]\<close> at a computed index: outside the array it is a fault.\<close>

definition rd :: "int list \<Rightarrow> int \<Rightarrow> fault + int" where
  "rd raw i = (if 0 \<le> i \<and> i < int (length raw) then Inr (raw ! nat i) else Inl (Rawdata_Index i))"

text \<open>
  \<^verbatim>\<open>sprintf(buf + off, ...)\<close> writing the formatted characters \<open>s\<close> and the
  terminating NUL; past the end of the array it is a fault.
\<close>

definition sprintf_at :: "char list \<Rightarrow> int \<Rightarrow> string \<Rightarrow> fault + char list" where
  "sprintf_at buf off s =
     (if 0 \<le> off \<and> off + int (length s) + 1 \<le> int (length buf)
      then Inr (take (nat off) buf @ s @ [NUL] @ drop (nat off + length s + 1) buf)
      else Inl (Field_Overflow (off + int (length s) + 1)))"

text \<open>
  The copying loops \<^verbatim>\<open>for (i = 0; i < n; ++i) sprintf(field + i, "%c", rawdata[base + i])\<close>,
  where \<open>n\<close> is the length byte read from \<^verbatim>\<open>rawdata\<close> (which the loop does not
  write). \<^verbatim>\<open>%c\<close> converts its int argument to unsigned char. The result is the final
  value of the loop variable and the field.
\<close>

function copy_chars ::
  "int list \<Rightarrow> int \<Rightarrow> int \<Rightarrow> int \<Rightarrow> char list \<Rightarrow> fault + (int \<times> char list)" where
  "copy_chars raw n base i buf =
     (if i < n then
        (case rd raw (base + i) of
           Inl f \<Rightarrow> Inl f
         | Inr c \<Rightarrow>
             (case sprintf_at buf i [char_of c] of
                Inl f \<Rightarrow> Inl f
              | Inr buf' \<Rightarrow> copy_chars raw n base (i + 1) buf'))
      else Inr (i, buf))"
  by pat_completeness auto
termination
  by (relation "measure (\<lambda>(raw, n, base, i, buf). nat (n - i))") auto

declare copy_chars.simps [simp del]

text \<open>
  The two formatted texts of \<^verbatim>\<open>get_CID_info\<close>: \<^verbatim>\<open>"%s %c%c"\<close> of the month's name
  and the two day characters, and \<^verbatim>\<open>"%c%c hr : %c%c min"\<close> of the hour and minute
  characters.
\<close>

definition date_text :: "int list \<Rightarrow> int \<Rightarrow> string" where
  "date_text raw month =
     months ! nat (month - 1) @ '' '' @ [char_of (raw ! 6), char_of (raw ! 7)]"

definition time_text :: "int list \<Rightarrow> string" where
  "time_text raw =
     [char_of (raw ! 8), char_of (raw ! 9)] @ '' hr : '' @
     [char_of (raw ! 10), char_of (raw ! 11)] @ '' min''"

text \<open>
  \<^verbatim>\<open>get_CID_info(cid, data)\<close>: month, day, hour and minute at the fixed offsets 4 to 11,
  the marker of the first field after them at offset 12, then two length-prefixed
  fields. There is no check of the month against the 12 entries of \<^verbatim>\<open>months\<close>, of a
  length byte against the field of 20 chars, or of an index against \<^verbatim>\<open>rawdata\<close>.
  The lines printed to standard output are left out.
\<close>

definition get_CID_info ::
  "'flt callerid_state \<Rightarrow> cid_data \<Rightarrow> fault + ('flt callerid_state \<times> cid_data)" where
  "get_CID_info cid data =
    (let raw = rawdata cid;
         month = (raw ! 4 - 48) * 10 + (raw ! 5 - 48)
     in
     if month - 1 < 0 \<or> int (length months) \<le> month - 1 then Inl (Months_Index (month - 1))
     else
      (case sprintf_at (date data) 0 (date_text raw month) of
         Inl f \<Rightarrow> Inl f
       | Inr date' \<Rightarrow>
          (case sprintf_at (call_time data) 0 (time_text raw) of
             Inl f \<Rightarrow> Inl f
           | Inr call_time' \<Rightarrow>
              (case
                 (if raw ! 12 = NAME then
                    (case copy_chars raw (raw ! 13) 14 0 (name data) of
                       Inl f \<Rightarrow> Inl f
                     | Inr (i, name') \<Rightarrow>
                         (case rd raw (15 + i) of
                            Inl f \<Rightarrow> Inl f
                          | Inr n \<Rightarrow>
                              (case copy_chars raw n (16 + i) 0 (number data) of
                                 Inl f \<Rightarrow> Inl f
                               | Inr (j, number') \<Rightarrow> Inr (name', number'))))
                  else if raw ! 12 = NUM then
                    (case copy_chars raw (raw ! 13) 14 0 (number data) of
                       Inl f \<Rightarrow> Inl f
                     | Inr (j, number') \<Rightarrow>
                         (case rd raw (15 + j) of
                            Inl f \<Rightarrow> Inl f
                          | Inr n \<Rightarrow>
                              (case copy_chars raw n (16 + j) 0 (name data) of
                                 Inl f \<Rightarrow> Inl f
                               | Inr (i, name') \<Rightarrow> Inr (name', number'))))
                  else Inr (name data, number data)) of
                 Inl f \<Rightarrow> Inl f
               | Inr (name', number') \<Rightarrow>
                  (case sprintf_at (date_time cid) 0 (cstr date' @ '' '' @ cstr call_time') of
                     Inl f \<Rightarrow> Inl f
                   | Inr date_time' \<Rightarrow>
                       Inr (cid\<lparr>cid_name := take 20 name' @ drop 20 (cid_name cid),
                                cid_number := take 20 number' @ drop 20 (cid_number cid),
                                date_time := date_time'\<rparr>,
                            \<lparr>date = date', call_time = call_time', name = name',
                             number = number'\<rparr>))))))"

text \<open>
  What \<^verbatim>\<open>main\<close> does with the result of the feed: a negative result is a failure,
  any other non-zero result calls \<^verbatim>\<open>get_CID_info\<close>, whatever the decoder printed
  about the checksum. \<open>decode_spill\<close> runs the bytes of a spill through the decoder and
  then this dispatch; the record is there when \<^verbatim>\<open>get_CID_info\<close> was called.
\<close>

definition decode_spill ::
  "'flt callerid_state \<Rightarrow> decoder_statics \<Rightarrow> int list \<Rightarrow> cid_data
     \<Rightarrow> fault + (int \<times> string \<times> decoder_statics \<times> cid_data option)" where
  "decode_spill cid st bytes data =
     (case decode_bytes cid st bytes of
        Inl f \<Rightarrow> Inl f
      | Inr (res, out, cid', st', rest) \<Rightarrow>
          if res < 0 then Inr (res, out, st', None)
          else if res \<noteq> 0 then
            (case get_CID_info cid' data of
               Inl f \<Rightarrow> Inl f
             | Inr (cid'', data') \<Rightarrow> Inr (res, out, st', Some data'))
          else Inr (res, out, st', None))"

section \<open>Session creation\<close>

text \<open>
  \<^verbatim>\<open>param\<close> of \<^verbatim>\<open>ciddeco.h\<close>. Its \<^verbatim>\<open>ispb\<close> (here \<open>ispb_f\<close>) is a float, the
  samples per bit that \<^verbatim>\<open>main\<close> computes as \<^verbatim>\<open>samp_rate / (float) baud_rate\<close>. A
  finite float is a rational number, and the model holds it as that number.
\<close>

record param =
  samp_rate :: int
  baud_rate :: int
  ispb_f :: rat

text \<open>
  The conversion of a float to \<^verbatim>\<open>int\<close> drops the fraction; a value outside the range
  of a 32-bit int is undefined.
\<close>

definition float_to_int :: "rat \<Rightarrow> fault + int" where
  "float_to_int x =
     (let t = (if 0 \<le> x then \<lfloor>x\<rfloor> else \<lceil>x\<rceil>)
      in if - (2 ^ 31) \<le> t \<and> t < 2 ^ 31 then Inr t else Inl Int_Conversion)"

text \<open>The division of C on ints, which rounds towards zero.\<close>

definition c_div :: "int \<Rightarrow> int \<Rightarrow> int" where
  "c_div a b = sgn a * sgn b * (\<bar>a\<bar> div \<bar>b\<bar>)"

text \<open>
  \<^verbatim>\<open>callerid_new(cid_signalling, demod_param)\<close>. \<^verbatim>\<open>fskmodem_init\<close> is not part of
  \<^verbatim>\<open>ciddeco.c\<close> and is a parameter, as are the zeroed filters \<open>flt0\<close> of the
  \<^verbatim>\<open>calloc\<close> and the rounded quotient \<open>fdiv\<close> of two floats. The difference
  \<^verbatim>\<open>demod_param->ispb - cid->fskd.ispb\<close> is the fraction of the float, which a float
  holds exactly. The quotient \<^verbatim>\<open>1 / \<close> of it is taken with no test of the divisor: for
  the divisor 0 there is no value that the conversion to the int \<^verbatim>\<open>pll_round_off\<close>
  defines. The products of ints are those of the integers (they fit for every
  \<^verbatim>\<open>ispb\<close> below \<open>2 ^ 26\<close>).
\<close>

definition callerid_new ::
  "(rat \<Rightarrow> rat \<Rightarrow> rat) \<Rightarrow> ('flt fsk_data \<Rightarrow> 'flt fsk_data) \<Rightarrow> 'flt \<Rightarrow> int \<Rightarrow> param
     \<Rightarrow> fault + 'flt callerid_state" where
  "callerid_new fdiv fskmodem_init flt0 cid_signalling demod_param =
     (case float_to_int (ispb_f demod_param) of
        Inl f \<Rightarrow> Inl f
      | Inr ispb' \<Rightarrow>
          let pllispb' = ispb' * 32;
              pllids' = c_div pllispb' 32;
              pllispb2' = c_div pllispb' 2;
              d = ispb_f demod_param - of_int ispb'
          in
          if d = 0 then Inl Division_By_Zero
          else
            (case float_to_int (fdiv 1 d) of
               Inl f \<Rightarrow> Inl f
             | Inr pll_round_off' \<Rightarrow>
                 Inr (calloc_cid
                   (fskmodem_init
                     \<lparr>nbit = 8, parity = 0, instop = 2, ispb = ispb', fsk_std = cid_signalling,
                      xi0 = 0, xi1 = 0, xi2 = 0, state = 0, pllispb = pllispb',
                      pllids = pllids', pllispb2 = pllispb2', icont = 0,
                      pll_round_off = pll_round_off', filters = flt0\<rparr>))))"

section \<open>Feeding samples\<close>

text \<open>
  \<^verbatim>\<open>fsk_serial(fskd, buffer, &len, &outbyte)\<close> is declared in \<^verbatim>\<open>fskmodem.h\<close> and
  defined outside \<^verbatim>\<open>ciddeco.c\<close>; it is a parameter: from the demodulator state, the
  samples at \<^verbatim>\<open>buffer\<close>, \<^verbatim>\<open>*len\<close> and \<^verbatim>\<open>*outbyte\<close> it gives its result, the new
  demodulator state, \<^verbatim>\<open>*len\<close> and \<^verbatim>\<open>*outbyte\<close>.
\<close>

type_synonym 'flt fsk_serial =
  "'flt fsk_data \<Rightarrow> int list \<Rightarrow> int \<Rightarrow> int \<Rightarrow> int \<times> 'flt fsk_data \<times> int \<times> int"

text \<open>
  The loop of \<^verbatim>\<open>callerid_feed\<close>. \<open>buf\<close> holds the samples from the pointer
  \<^verbatim>\<open>buf\<close> to the end of the allocated block; \<^verbatim>\<open>buf += (olen - mylen)\<close> leaving the
  block is the fault \<open>Sample_Buffer\<close>. Nothing in the loop bounds the number of its
  rounds (that depends on \<^verbatim>\<open>fsk_serial\<close>), so the result is an option: \<open>None\<close> is
  a loop that does not end. A result of the loop is the value returned from inside it
  (\<open>-1\<close> or \<open>1\<close>) or 0 for its regular end, with what the decoder printed, the state,
  the statics, and the samples and the count left.
\<close>

partial_function (option) feed_loop ::
  "'flt fsk_serial \<Rightarrow> 'flt callerid_state \<Rightarrow> decoder_statics \<Rightarrow> int list \<Rightarrow> int \<Rightarrow> int
     \<Rightarrow> (fault + (int \<times> string \<times> 'flt callerid_state \<times> decoder_statics \<times> int list \<times> int)) option"
  where
  "feed_loop fsk cid st buf mylen b =
     (if ispb (fskd cid) * 12 \<le> mylen then
        (case fsk (fskd cid) buf mylen b of
           (res, fskd', mylen', b') \<Rightarrow>
             if mylen - mylen' < 0 \<or> int (length buf) < mylen - mylen'
             then Some (Inl (Sample_Buffer (mylen - mylen')))
             else if res \<noteq> 0 then
               (case decode_CID_msg (cid\<lparr>fskd := fskd'\<rparr>) st b' of
                  Inl f \<Rightarrow> Some (Inl f)
                | Inr (r, out, cid', st') \<Rightarrow>
                    if r = -1
                    then Some (Inr (-1, out, cid', st', drop (nat (mylen - mylen')) buf, mylen'))
                    else if r \<noteq> 0
                    then Some (Inr (1, out, cid', st', drop (nat (mylen - mylen')) buf, mylen'))
                    else feed_loop fsk cid' st' (drop (nat (mylen - mylen')) buf) mylen' b')
             else feed_loop fsk (cid\<lparr>fskd := fskd'\<rparr>) st
                    (drop (nat (mylen - mylen')) buf) mylen' b')
      else Some (Inr (0, [], cid, st, buf, mylen)))"

text \<open>
  \<^verbatim>\<open>callerid_feed(cid, ubuf, len)\<close>, with \<^verbatim>\<open>ubuf\<close> as the samples \<^verbatim>\<open>temp_buf\<close>
  that it is read as and \<^verbatim>\<open>len\<close> in bytes. The block is the \<^verbatim>\<open>oldlen\<close> bytes of
  \<^verbatim>\<open>oldstuff\<close> followed by the \<^verbatim>\<open>len / 2\<close> new samples. After the loop the
  samples left are copied to \<^verbatim>\<open>oldstuff\<close>; a return from inside the loop leaves
  \<^verbatim>\<open>oldstuff\<close> and \<^verbatim>\<open>oldlen\<close> as they were.
\<close>

definition callerid_feed ::
  "'flt fsk_serial \<Rightarrow> 'flt callerid_state \<Rightarrow> decoder_statics \<Rightarrow> int list \<Rightarrow> int
     \<Rightarrow> (fault + (int \<times> string \<times> 'flt callerid_state \<times> decoder_statics)) option" where
  "callerid_feed fsk cid st temp_buf len0 =
     (let len = c_div len0 2;
          old = c_div (oldlen cid) 2
      in
      if len < 0 \<or> int (length temp_buf) < len then Some (Inl (Sample_Buffer len))
      else if old < 0 \<or> int (length (oldstuff cid)) < old then Some (Inl (Oldstuff_Overflow old))
      else
        (case feed_loop fsk cid st (take (nat old) (oldstuff cid) @ take (nat len) temp_buf)
                (len + old) 88 of
           None \<Rightarrow> None
         | Some (Inl f) \<Rightarrow> Some (Inl f)
         | Some (Inr (res, out, cid', st', buf', mylen')) \<Rightarrow>
             if res \<noteq> 0 then Some (Inr (res, out, cid', st'))
             else if mylen' \<noteq> 0 then
               (if mylen' < 0 \<or> int (length buf') < mylen' then Some (Inl (Sample_Buffer mylen'))
                else if int (length (oldstuff cid')) < mylen'
                then Some (Inl (Oldstuff_Overflow mylen'))
                else Some (Inr (0, out,
                       cid'\<lparr>oldstuff := take (nat mylen') buf' @ drop (nat mylen') (oldstuff cid'),
                            oldlen := mylen' * 2\<rparr>, st')))
             else Some (Inr (0, out, cid'\<lparr>oldlen := 0\<rparr>, st'))))"

section \<open>Messages and examples\<close>

text \<open>
  The checksum byte as the specification words it: 256 minus the sum of the preceding
  bytes modulo 256, taken modulo 256 again.
\<close>

definition cid_checksum :: "int list \<Rightarrow> int" where
  "cid_checksum bs = (256 - sum_list bs mod 256) mod 256"

text \<open>
  A message as the sender frames it: type byte, length byte, the fields (each a marker,
  the length of its data and the data) and the checksum byte. The decoder does not
  look at the value of the length byte, so it is a parameter here.
\<close>

definition cid_field :: "int \<times> int list \<Rightarrow> int list" where
  "cid_field f = [fst f, int (length (snd f))] @ snd f"

definition cid_frame :: "int \<Rightarrow> int \<Rightarrow> (int \<times> int list) list \<Rightarrow> int list" where
  "cid_frame ty len fs = [ty, len] @ concat (map cid_field fs)"

definition cid_msg :: "int \<Rightarrow> int \<Rightarrow> (int \<times> int list) list \<Rightarrow> int list" where
  "cid_msg ty len fs = cid_frame ty len fs @ [cid_checksum (cid_frame ty len fs)]"

text \<open>
  The demodulator state that \<^verbatim>\<open>callerid_new\<close> makes for 44100 samples per second at
  1200 baud (36.75 samples per bit), with no filters, and a \<^verbatim>\<open>cid_data\<close> of NULs.
\<close>

definition fskd_example :: "unit fsk_data" where
  "fskd_example =
     \<lparr>nbit = 8, parity = 0, instop = 2, ispb = 36, fsk_std = 0, xi0 = 0, xi1 = 0, xi2 = 0,
      state = 0, pllispb = 1152, pllids = 36, pllispb2 = 576, icont = 0, pll_round_off = 1,
      filters = ()\<rparr>"

definition blank_data :: cid_data where
  "blank_data = \<lparr>date = replicate 20 NUL, call_time = replicate 20 NUL,
                  name = replicate 20 NUL, number = replicate 20 NUL\<rparr>"

text \<open>What a caller reads from the results: the four strings of a record.\<close>

definition record_strings :: "cid_data \<Rightarrow> string \<times> string \<times> string \<times> string" where
  "record_strings d = (cstr (date d), cstr (call_time d), cstr (name d), cstr (number d))"

definition spill_result ::
  "fault + (int \<times> string \<times> decoder_statics \<times> cid_data option)
     \<Rightarrow> fault + (int \<times> string \<times> (string \<times> string \<times> string \<times> string) option)" where
  "spill_result r =
     (case r of Inl f \<Rightarrow> Inl f
      | Inr (res, out, st, d) \<Rightarrow> Inr (res, out, map_option record_strings d))"

text \<open>
  The samples that a session carries over to its next feed, and what a caller sees of
  a feed: the return value, the line printed, and the samples carried over.
\<close>

definition carry_over :: "'flt callerid_state \<Rightarrow> int list" where
  "carry_over cid = take (nat (c_div (oldlen cid) 2)) (oldstuff cid)"

definition feed_result ::
  "(fault + (int \<times> string \<times> 'flt callerid_state \<times> decoder_statics)) option
     \<Rightarrow> (fault + (int \<times> string \<times> int list)) option" where
  "feed_result r =
     (case r of None \<Rightarrow> None | Some (Inl f) \<Rightarrow> Some (Inl f)
      | Some (Inr (res, out, cid, st)) \<Rightarrow> Some (Inr (res, out, carry_over cid)))"

text \<open>
  A stand-in for \<^verbatim>\<open>fsk_serial\<close> in examples: every call takes one sample and
  delivers it as a byte.
\<close>

definition byte_per_sample :: "'flt fsk_serial" where
  "byte_per_sample fd buf len b =
     (case buf of [] \<Rightarrow> (0, fd, len, b) | x # xs \<Rightarrow> (1, fd, len - 1, x))"

text \<open>
  What a caller sees of the decoder after some bytes: the return value, the line
  printed, the state of the machine, the checksum accumulator, the statics and the
  bytes not looked at.
\<close>

definition decode_outcome ::
  "fault + (int \<times> string \<times> 'flt callerid_state \<times> decoder_statics \<times> int list)
     \<Rightarrow> fault + (int \<times> string \<times> int \<times> int \<times> decoder_statics \<times> int list)" where
  "decode_outcome r =
     (case r of Inl f \<Rightarrow> Inl f
      | Inr (res, out, cid, st, rest) \<Rightarrow> Inr (res, out, sawflag cid, cksum cid, st, rest))"

text \<open>
  The state of a new session with one sample per bit after a feed of 16 samples: five
  bytes decoded, eleven samples carried over.
\<close>

definition fed_example :: "unit callerid_state" where
  "fed_example =
     (calloc_cid (fskd_example\<lparr>ispb := 1\<rparr>))
       \<lparr>rawdata := (replicate 256 0)[0 := 0x80, 1 := 0x13, 2 := 0x01, 3 := 0x08, 4 := 48],
        oldstuff := [49, 48, 53, 49, 52, 51, 50, 0x07, 0x02, 65, 66] @ replicate 989 0,
        oldlen := 22, cksum := 204, sawflag := DATA\<rparr>"

text \<open>
  The demodulator state that \<^verbatim>\<open>callerid_new\<close> makes for 101100 samples per second at
  1200 baud (84.25 samples per bit): the window of twelve bits is 1008 samples.
\<close>

definition fskd_wide :: "unit fsk_data" where
  "fskd_wide =
     fskd_example\<lparr>ispb := 84, pllispb := 2688, pllids := 84, pllispb2 := 1344,
                   pll_round_off := 4\<rparr>"

text \<open>
  A session whose message buffer holds the MDMF message of 5 January, 14:32, with the
  name AB and the number 555.
\<close>

definition received_example :: "unit callerid_state" where
  "received_example =
     (calloc_cid fskd_example)
       \<lparr>rawdata := [0x80, 0x13, 0x01, 0x08, 48, 49, 48, 53, 49, 52, 51, 50, 0x07, 0x02, 65, 66,
                    0x02, 0x03, 53, 53, 53, 0xA4] @ replicate 234 0\<rparr>"

section \<open>Properties of the decoder\<close>

lemma and_255_mod: "(x::int) AND 255 = x mod 256"
  using take_bit_eq_mod [of 8 x] take_bit_eq_mask [of 8 x] by (simp add: mask_eq_exp_minus_1)

lemma callerid_new_example:
  "callerid_new (/) id () 0 \<lparr>samp_rate = 44100, baud_rate = 1200, ispb_f = 147 / 4\<rparr>
     = Inr (calloc_cid fskd_example)"
proof -
  have f1: "\<lfloor>147 / 4 :: rat\<rfloor> = 36" by (rule floor_unique) simp_all
  have f2: "\<lfloor>4 / 3 :: rat\<rfloor> = 1" by (rule floor_unique) simp_all
  show ?thesis
    by (simp add: callerid_new_def float_to_int_def c_div_def fskd_example_def Let_def f1 f2)
qed

lemma decode_CID_msg_Inl:
  "decode_CID_msg cid st a = Inl f \<longleftrightarrow>
     (msg_off st < 0 \<or> int (length (rawdata cid)) \<le> msg_off st) \<and> f = Rawdata_Index (msg_off st)"
  by (auto simp: decode_CID_msg_def Let_def)

lemma decode_CID_msg_Inr:
  assumes "decode_CID_msg cid st a = Inr (r, out, cid', st')"
  shows "rawdata cid' = (rawdata cid)[nat (msg_off st) := a]"
    and "0 \<le> msg_off st" and "msg_off st < int (length (rawdata cid))"
    and "r = 0 \<or> r = 1 \<or> r = -1"
    and "r = 0 \<Longrightarrow> msg_off st' = msg_off st + 1"
    and "msg_off st' = 0 \<or> msg_off st' = msg_off st + 1"
    and "date_time cid' = date_time cid"
  using assms unfolding decode_CID_msg_def Let_def
  by (simp_all split: if_splits) auto

lemma decode_bytes_within:
  assumes "0 \<le> msg_off st" and "msg_off st + int (length bs) \<le> int (length (rawdata cid))"
  shows "\<exists>r out cid' st' rest. decode_bytes cid st bs = Inr (r, out, cid', st', rest)
           \<and> length (rawdata cid') = length (rawdata cid)
           \<and> 0 \<le> msg_off st' \<and> msg_off st' + int (length rest) \<le> msg_off st + int (length bs)"
  using assms
proof (induction bs arbitrary: cid st)
  case Nil
  then show ?case by simp
next
  case (Cons b bs)
  from Cons.prems have "\<not> (msg_off st < 0 \<or> int (length (rawdata cid)) \<le> msg_off st)" by simp
  then obtain r out cid1 st1 where step: "decode_CID_msg cid st b = Inr (r, out, cid1, st1)"
    using decode_CID_msg_Inl [of cid st b]
    by (metis sum.exhaust prod_cases4)
  note facts = decode_CID_msg_Inr [OF step]
  show ?case
  proof (cases "r = 0")
    case True
    with facts have off: "msg_off st1 = msg_off st + 1" and len: "length (rawdata cid1) = length (rawdata cid)"
      by simp_all
    from Cons.prems off len
    have "0 \<le> msg_off st1" "msg_off st1 + int (length bs) \<le> int (length (rawdata cid1))"
      by simp_all
    from Cons.IH [OF this] obtain r' out' cid' st' rest where
      "decode_bytes cid1 st1 bs = Inr (r', out', cid', st', rest)"
      "length (rawdata cid') = length (rawdata cid1)"
      "0 \<le> msg_off st'" "msg_off st' + int (length rest) \<le> msg_off st1 + int (length bs)"
      by blast
    with step True off len show ?thesis by simp
  next
    case False
    with facts Cons.prems show ?thesis
      using step by auto
  qed
qed

lemma decode_bytes_rawdata:
  assumes "decode_bytes cid st bs = Inr (r, out, cid', st', rest)"
    and "rawdata cid = xs @ replicate k 0" and "msg_off st = int (length xs)"
    and "length bs \<le> k"
  shows "rawdata cid' = (xs @ take (length bs - length rest) bs)
            @ replicate (k - (length bs - length rest)) 0 \<and> length rest \<le> length bs
         \<and> date_time cid' = date_time cid"
  using assms
proof (induction bs arbitrary: cid st xs k)
  case Nil
  then show ?case by simp
next
  case (Cons b bs)
  from Cons.prems(1) obtain r1 out1 cid1 st1 where
    step: "decode_CID_msg cid st b = Inr (r1, out1, cid1, st1)"
    by (auto split: sum.splits)
  note facts = decode_CID_msg_Inr [OF step]
  from Cons.prems obtain k' where k: "k = Suc k'" by (cases k) auto
  have raw1: "rawdata cid1 = (xs @ [b]) @ replicate k' 0"
    using facts(1) Cons.prems(2,3) k by simp
  show ?case
  proof (cases "r1 = 0")
    case True
    with Cons.prems(1) step have run: "decode_bytes cid1 st1 bs = Inr (r, out, cid', st', rest)"
      by simp
    have "msg_off st1 = int (length (xs @ [b]))"
      using facts(5) True Cons.prems(3) by simp
    from Cons.IH [OF run raw1 this] Cons.prems(4) k
    have ih: "rawdata cid' = ((xs @ [b]) @ take (length bs - length rest) bs)
                 @ replicate (k' - (length bs - length rest)) 0"
      and le: "length rest \<le> length bs" and dt: "date_time cid' = date_time cid1" by simp_all
    from le have "take (length (b # bs) - length rest) (b # bs) = b # take (length bs - length rest) bs"
      by (simp add: Suc_diff_le)
    with ih le k dt facts(7) show ?thesis by (simp add: Suc_diff_le)
  next
    case False
    with Cons.prems(1) step have "cid' = cid1" "rest = bs" by (auto split: if_splits)
    with raw1 k facts(7) show ?thesis by simp
  qed
qed

lemma decode_data_stay:
  assumes "sawflag cid = DATA" and "data_field st \<noteq> 1"
    and "0 \<le> msg_off st" and "msg_off st < int (length (rawdata cid))"
  shows "decode_CID_msg cid st d =
           Inr (0, [], cid\<lparr>rawdata := (rawdata cid)[nat (msg_off st) := d], cksum := cksum cid + d\<rparr>,
                st\<lparr>msg_off := msg_off st + 1, data_field := data_field st - 1\<rparr>)"
  using assms by (simp add: decode_CID_msg_def Let_def)

lemma decode_data_last:
  assumes "sawflag cid = DATA" and "data_field st = 1"
    and "0 \<le> msg_off st" and "msg_off st < int (length (rawdata cid))"
  shows "decode_CID_msg cid st d =
           Inr (0, [],
                cid\<lparr>rawdata := (rawdata cid)[nat (msg_off st) := d],
                    sawflag := (if msg_type st = MDMF \<and> name_field st \<noteq> 0 \<and> number_field st \<noteq> 0
                                then CHECKSUM
                                else if msg_type st = SDMF \<and> number_field st \<noteq> 0 then CHECKSUM
                                else DATA_TYPE),
                    cksum := cksum cid + d\<rparr>,
                st\<lparr>msg_off := msg_off st + 1, data_field := 0,
                   name_field := (if msg_type st = MDMF \<and> name_field st \<noteq> 0 \<and> number_field st \<noteq> 0
                                  then 0 else name_field st),
                   number_field := (if msg_type st = MDMF \<and> name_field st \<noteq> 0 \<and> number_field st \<noteq> 0
                                    then 0
                                    else if msg_type st = SDMF \<and> number_field st \<noteq> 0 then 0
                                    else number_field st)\<rparr>)"
  using assms by (simp add: decode_CID_msg_def Let_def)

lemma decode_bytes_data_field:
  assumes "ds \<noteq> []" and "sawflag cid = DATA" and "data_field st = int (length ds)"
    and "0 \<le> msg_off st" and "msg_off st + int (length ds) \<le> int (length (rawdata cid))"
  shows "decode_bytes cid st (ds @ rest) =
           decode_bytes
             (cid\<lparr>rawdata := take (nat (msg_off st)) (rawdata cid) @ ds @
                               drop (nat (msg_off st) + length ds) (rawdata cid),
                  sawflag := (if msg_type st = MDMF \<and> name_field st \<noteq> 0 \<and> number_field st \<noteq> 0
                              then CHECKSUM
                              else if msg_type st = SDMF \<and> number_field st \<noteq> 0 then CHECKSUM
                              else DATA_TYPE),
                  cksum := cksum cid + sum_list ds\<rparr>)
             (st\<lparr>msg_off := msg_off st + int (length ds), data_field := 0,
                 name_field := (if msg_type st = MDMF \<and> name_field st \<noteq> 0 \<and> number_field st \<noteq> 0
                                then 0 else name_field st),
                 number_field := (if msg_type st = MDMF \<and> name_field st \<noteq> 0 \<and> number_field st \<noteq> 0
                                  then 0
                                  else if msg_type st = SDMF \<and> number_field st \<noteq> 0 then 0
                                  else number_field st)\<rparr>)
             rest"
  using assms
proof (induction ds arbitrary: cid st rule: list_nonempty_induct)
  case (single d)
  then have m: "nat (msg_off st) < length (rawdata cid)" by simp
  have "decode_bytes cid st ([d] @ rest) =
          (case decode_CID_msg cid st d of Inl f \<Rightarrow> Inl f
           | Inr (res, out, cid', st') \<Rightarrow>
               if res = -1 then Inr (-1, out, cid', st', rest)
               else if res \<noteq> 0 then Inr (1, out, cid', st', rest)
               else decode_bytes cid' st' rest)" by simp
  also have "decode_CID_msg cid st d = Inr (0, [],
                cid\<lparr>rawdata := (rawdata cid)[nat (msg_off st) := d],
                    sawflag := (if msg_type st = MDMF \<and> name_field st \<noteq> 0 \<and> number_field st \<noteq> 0
                                then CHECKSUM
                                else if msg_type st = SDMF \<and> number_field st \<noteq> 0 then CHECKSUM
                                else DATA_TYPE),
                    cksum := cksum cid + d\<rparr>,
                st\<lparr>msg_off := msg_off st + 1, data_field := 0,
                   name_field := (if msg_type st = MDMF \<and> name_field st \<noteq> 0 \<and> number_field st \<noteq> 0
                                  then 0 else name_field st),
                   number_field := (if msg_type st = MDMF \<and> name_field st \<noteq> 0 \<and> number_field st \<noteq> 0
                                    then 0
                                    else if msg_type st = SDMF \<and> number_field st \<noteq> 0 then 0
                                    else number_field st)\<rparr>)"
    using single by (intro decode_data_last) simp_all
  finally show ?case
    using m by (simp add: upd_conv_take_nth_drop)
next
  case (cons d ds)
  then have m: "nat (msg_off st) < length (rawdata cid)" by simp
  let ?cid1 = "cid\<lparr>rawdata := (rawdata cid)[nat (msg_off st) := d], cksum := cksum cid + d\<rparr>"
  let ?st1 = "st\<lparr>msg_off := msg_off st + 1, data_field := data_field st - 1\<rparr>"
  have step: "decode_CID_msg cid st d = Inr (0, [], ?cid1, ?st1)"
    using cons.prems cons.hyps by (intro decode_data_stay) auto
  have "decode_bytes cid st ((d # ds) @ rest) = decode_bytes ?cid1 ?st1 (ds @ rest)"
    using step by simp
  also have "\<dots> = decode_bytes
             (?cid1\<lparr>rawdata := take (nat (msg_off ?st1)) (rawdata ?cid1) @ ds @
                               drop (nat (msg_off ?st1) + length ds) (rawdata ?cid1),
                  sawflag := (if msg_type ?st1 = MDMF \<and> name_field ?st1 \<noteq> 0 \<and> number_field ?st1 \<noteq> 0
                              then CHECKSUM
                              else if msg_type ?st1 = SDMF \<and> number_field ?st1 \<noteq> 0 then CHECKSUM
                              else DATA_TYPE),
                  cksum := cksum ?cid1 + sum_list ds\<rparr>)
             (?st1\<lparr>msg_off := msg_off ?st1 + int (length ds), data_field := 0,
                 name_field := (if msg_type ?st1 = MDMF \<and> name_field ?st1 \<noteq> 0 \<and> number_field ?st1 \<noteq> 0
                                then 0 else name_field ?st1),
                 number_field := (if msg_type ?st1 = MDMF \<and> name_field ?st1 \<noteq> 0 \<and> number_field ?st1 \<noteq> 0
                                  then 0
                                  else if msg_type ?st1 = SDMF \<and> number_field ?st1 \<noteq> 0 then 0
                                  else number_field ?st1)\<rparr>)
             rest"
    using cons.prems by (intro cons.IH) simp_all
  finally show ?case
    using m cons.prems(3)
    by (simp add: nat_add_distrib take_Suc_conv_app_nth add.assoc)
qed

lemma decode_bytes_data_overrun:
  assumes "sawflag cid = DATA" and "data_field st \<le> 0"
    and "0 \<le> msg_off st" and "msg_off st \<le> int (length (rawdata cid))"
    and "int (length (rawdata cid)) < msg_off st + int n"
  shows "decode_bytes cid st (replicate n x) = Inl (Rawdata_Index (int (length (rawdata cid))))"
  using assms
proof (induction n arbitrary: cid st)
  case 0
  then show ?case by simp
next
  case (Suc n)
  show ?case
  proof (cases "msg_off st = int (length (rawdata cid))")
    case True
    then have "decode_CID_msg cid st x = Inl (Rawdata_Index (int (length (rawdata cid))))"
      by (simp add: decode_CID_msg_Inl)
    then show ?thesis by simp
  next
    case False
    with Suc.prems have lt: "msg_off st < int (length (rawdata cid))" by simp
    let ?cid1 = "cid\<lparr>rawdata := (rawdata cid)[nat (msg_off st) := x], cksum := cksum cid + x\<rparr>"
    let ?st1 = "st\<lparr>msg_off := msg_off st + 1, data_field := data_field st - 1\<rparr>"
    have step: "decode_CID_msg cid st x = Inr (0, [], ?cid1, ?st1)"
      using Suc.prems lt by (intro decode_data_stay) simp_all
    have "decode_bytes ?cid1 ?st1 (replicate n x) = Inl (Rawdata_Index (int (length (rawdata ?cid1))))"
      using Suc.prems lt by (intro Suc.IH) simp_all
    with step show ?thesis by simp
  qed
qed

text \<open>
  C7, as the code has it: a first byte that is neither 0x80 nor 0x04 puts the decoder
  into the state \<^verbatim>\<open>UNKNOWN\<close>, and the call for that byte returns 0 like any other;
  the byte is stored in \<^verbatim>\<open>rawdata\<close>, counted in \<^verbatim>\<open>msg_off\<close> and added to
  \<^verbatim>\<open>cksum\<close>. The result \<open>-1\<close> comes with the call for the next byte, whatever that
  byte is, and that byte is stored and counted too.
\<close>

theorem C7_unknown_reported_on_next_byte:
  assumes "sawflag cid = MESSAGE_TYPE" and "a \<noteq> MDMF" and "a \<noteq> SDMF"
    and "0 \<le> msg_off st" and "msg_off st + 1 < int (length (rawdata cid))"
  shows "decode_bytes cid st [a] =
           Inr (0, [],
                cid\<lparr>rawdata := (rawdata cid)[nat (msg_off st) := a],
                    sawflag := UNKNOWN, cksum := cksum cid + a\<rparr>,
                st\<lparr>msg_off := msg_off st + 1\<rparr>, [])
       \<and> decode_bytes cid st (a # b # bs) =
           Inr (-1, ''UNKNOWN'',
                cid\<lparr>rawdata := (rawdata cid)[nat (msg_off st) := a, nat (msg_off st + 1) := b],
                    sawflag := UNKNOWN, cksum := cksum cid + a\<rparr>,
                st\<lparr>msg_off := msg_off st + 2\<rparr>, bs)"
  using assms by (simp add: decode_CID_msg_def Let_def)

theorem C7_unknown_reported_on_next_byte_witness:
  "decode_bytes (calloc_cid fskd_example) statics_at_start [0x55] =
     Inr (0, [],
          (calloc_cid fskd_example)
            \<lparr>rawdata := (replicate 256 0)[0 := 0x55], cksum := 0x55, sawflag := UNKNOWN\<rparr>,
          statics_at_start\<lparr>msg_off := 1\<rparr>, [])
   \<and> decode_bytes (calloc_cid fskd_example) statics_at_start [0x55, 0x80, 0x04] =
     Inr (-1, ''UNKNOWN'',
          (calloc_cid fskd_example)
            \<lparr>rawdata := (replicate 256 0)[0 := 0x55, 1 := 0x80], cksum := 0x55,
             sawflag := UNKNOWN\<rparr>,
          statics_at_start\<lparr>msg_off := 2\<rparr>, [0x04])"
  using C7_unknown_reported_on_next_byte
          [of "calloc_cid fskd_example" "0x55" statics_at_start "0x80" "[0x04]"]
  by (simp add: calloc_cid_def statics_at_start_def)

text \<open>
  C7, as the claim states it, fails: in a new session the call for the byte 0x55
  returns 0, not the error, and the byte has moved \<^verbatim>\<open>msg_off\<close>, \<^verbatim>\<open>cksum\<close> and
  \<^verbatim>\<open>rawdata\<close>.
\<close>

theorem C7_counterexample:
  "decode_CID_msg (calloc_cid fskd_example) statics_at_start 0x55 =
     Inr (0, [],
          (calloc_cid fskd_example)
            \<lparr>rawdata := (replicate 256 0)[0 := 0x55], cksum := 0x55, sawflag := UNKNOWN\<rparr>,
          statics_at_start\<lparr>msg_off := 1\<rparr>)"
  by (simp add: decode_CID_msg_def calloc_cid_def statics_at_start_def)

text \<open>
  C5, as the code has it: \<^verbatim>\<open>decode_CID_msg\<close> has no bound on \<^verbatim>\<open>msg_off\<close>; what
  keeps the stores inside \<^verbatim>\<open>rawdata\<close> is the number of bytes fed. For a session
  that starts with \<^verbatim>\<open>msg_off\<close> 0 and is fed at most 256 bytes, at every point of the
  decoding (after any \<open>n\<close> of the bytes) no store has left the 256 entries and the
  count of bytes stored is at most 256.
\<close>

theorem C5_within_capacity:
  assumes "msg_off st = 0" and "length (rawdata cid) = 256" and "length bs \<le> 256"
  shows "\<exists>r out cid' st' rest.
           decode_bytes cid st (take n bs) = Inr (r, out, cid', st', rest)
           \<and> length (rawdata cid') = 256 \<and> 0 \<le> msg_off st' \<and> msg_off st' \<le> 256"
proof -
  have "0 \<le> msg_off st" "msg_off st + int (length (take n bs)) \<le> int (length (rawdata cid))"
    using assms by simp_all
  from decode_bytes_within [OF this] assms show ?thesis
    by fastforce
qed

theorem C5_within_capacity_witness:
  "\<exists>r out cid' st' rest.
     decode_bytes (calloc_cid fskd_example) statics_at_start
       (take 256 ([0x80, 0x00, 0x01, 0x00] @ replicate 252 0x41)) = Inr (r, out, cid', st', rest)
     \<and> length (rawdata cid') = 256 \<and> 0 \<le> msg_off st' \<and> msg_off st' \<le> 256"
  using C5_within_capacity [of statics_at_start "calloc_cid fskd_example"
          "[0x80, 0x00, 0x01, 0x00] @ replicate 252 0x41" 256]
  by (simp add: calloc_cid_def statics_at_start_def)

text \<open>
  C5, as the claim states it, fails. A length byte of 0 makes \<^verbatim>\<open>--data_field\<close>
  negative, so the state \<^verbatim>\<open>DATA\<close> is never left: of the 257 bytes 0x80, 0x00, 0x01,
  0x00 and 253 times 0x41, 256 are stored and the last one goes to
  \<^verbatim>\<open>rawdata[256]\<close>, outside the array.
\<close>

theorem C5_counterexample:
  "decode_bytes (calloc_cid fskd_example) statics_at_start
     ([0x80, 0x00, 0x01, 0x00] @ replicate 253 0x41) = Inl (Rawdata_Index 256)"
  by (simp add: decode_CID_msg_def calloc_cid_def statics_at_start_def decode_bytes_data_overrun)

text \<open>
  What the code does with the byte that arrives in the state \<^verbatim>\<open>CHECKSUM\<close>, for a
  session whose accumulator started at 0: the accumulator is the sum of the bytes
  before, and the byte passes exactly when that sum is not a multiple of 256 and the
  byte is the checksum of the specification.
\<close>

lemma decode_CID_msg_cksum:
  assumes "decode_CID_msg cid st a = Inr (0, out, cid', st')"
  shows "cksum cid' = cksum cid + a"
  using assms unfolding decode_CID_msg_def Let_def
  by (simp split: if_splits) auto

lemma decode_bytes_append:
  assumes "decode_bytes cid st bs = Inr (0, out, cid', st', rest)"
  shows "rest = [] \<and> out = [] \<and> cksum cid' = cksum cid + sum_list bs
         \<and> decode_bytes cid st (bs @ cs) = decode_bytes cid' st' cs"
  using assms
proof (induction bs arbitrary: cid st)
  case Nil
  then show ?case by simp
next
  case (Cons b bs)
  from Cons.prems obtain r1 out1 cid1 st1 where
    step: "decode_CID_msg cid st b = Inr (r1, out1, cid1, st1)"
    by (auto split: sum.splits)
  with Cons.prems have r1: "r1 = 0" by (auto split: if_splits)
  with Cons.prems step have run: "decode_bytes cid1 st1 bs = Inr (0, out, cid', st', rest)"
    by simp
  from decode_CID_msg_cksum [OF step [unfolded r1]] have "cksum cid1 = cksum cid + b" .
  with Cons.IH [OF run] step r1 show ?case by simp
qed

lemma cid_checksum_cases:
  "cid_checksum bs = (if sum_list bs mod 256 = 0 then 0 else 256 - sum_list bs mod 256)"
proof (cases "sum_list bs mod 256 = 0")
  case True
  then show ?thesis by (simp add: cid_checksum_def)
next
  case False
  have "0 \<le> sum_list bs mod 256" by simp
  with False have "0 < sum_list bs mod 256" by linarith
  moreover have "sum_list bs mod 256 < 256" by simp
  ultimately have "(256 - sum_list bs mod 256) mod 256 = 256 - sum_list bs mod 256"
    by (intro mod_pos_pos_trivial) simp_all
  with False show ?thesis unfolding cid_checksum_def by simp
qed

lemma decode_checksum_byte:
  assumes run: "decode_bytes cid st bs = Inr (0, out, cid', st', rest)"
    and chk: "sawflag cid' = CHECKSUM" and c0: "cksum cid = 0"
    and off: "0 \<le> msg_off st'" "msg_off st' < int (length (rawdata cid'))"
    and c: "0 \<le> c" "c < 256"
  shows "decode_outcome (decode_bytes cid st (bs @ [c])) =
           Inr (1, if sum_list bs mod 256 \<noteq> 0 \<and> c = cid_checksum bs
                   then ''Checksum Passed!!'' else ''Checksum Failed!!'',
                CHECKSUM, sum_list bs, st'\<lparr>msg_off := 0\<rparr>, [])"
proof -
  from decode_bytes_append [OF run, of "[c]"] c0
  have ck: "cksum cid' = sum_list bs"
    and app: "decode_bytes cid st (bs @ [c]) = decode_bytes cid' st' [c]" by simp_all
  have "(c = 256 - sum_list bs mod 256) = (sum_list bs mod 256 \<noteq> 0 \<and> c = cid_checksum bs)"
    using c unfolding cid_checksum_cases by auto
  then show ?thesis
    unfolding app using chk off ck
    by (simp add: decode_CID_msg_def Let_def and_255_mod decode_outcome_def)
qed

text \<open>
  C1: the code compares the checksum byte with \<^verbatim>\<open>256 - (cksum & 0xff)\<close>, without
  the final reduction modulo 256. Where the bytes before the checksum add up to a
  multiple of 256 the right checksum byte is 0, the comparison is with 256, and the
  message is rejected: here an SDMF message whose 15 bytes add up to 512. For every
  other sum the code accepts exactly the checksum byte of the specification
  (\<open>decode_checksum_byte\<close>).
\<close>

theorem C1_zero_sum_checksum_rejected:
  "sum_list [0x04, 0x0C, 0x02, 0x0A, 49, 49, 49, 49, 48, 48, 48, 48, 48, 48, 0x00] mod 256
     = (0::int)
   \<and> cid_checksum [0x04, 0x0C, 0x02, 0x0A, 49, 49, 49, 49, 48, 48, 48, 48, 48, 48] = 0x00
   \<and> decode_outcome (decode_bytes (calloc_cid fskd_example) statics_at_start
       [0x04, 0x0C, 0x02, 0x0A, 49, 49, 49, 49, 48, 48, 48, 48, 48, 48, 0x00]) =
     Inr (1, ''Checksum Failed!!'', CHECKSUM, 512,
          \<lparr>name_field = 0, number_field = 0, msg_type = SDMF, msg_off = 0, data_field = 0\<rparr>,
          [])"
  by (simp add: decode_CID_msg_def calloc_cid_def statics_at_start_def decode_outcome_def
        cid_checksum_def)

text \<open>
  C2: after a checksum mismatch \<^verbatim>\<open>decode_CID_msg\<close> prints its line and returns 1, as
  it does for a match. For an MDMF message whose checksum byte is 0x00 instead of 0xA4
  the feed returns 1, and \<^verbatim>\<open>main\<close> extracts and delivers the same record as for the
  message with the right checksum byte.
\<close>

theorem C2_checksum_failure_returns_complete:
  "spill_result (decode_spill (calloc_cid fskd_example) statics_at_start
     [0x80, 0x13, 0x01, 0x08, 48, 49, 48, 53, 49, 52, 51, 50, 0x07, 0x02, 65, 66,
      0x02, 0x03, 53, 53, 53, 0x00] blank_data) =
   Inr (1, ''Checksum Failed!!'', Some (''January 05'', ''14 hr : 32 min'', ''AB'', ''555''))
   \<and> spill_result (decode_spill (calloc_cid fskd_example) statics_at_start
     [0x80, 0x13, 0x01, 0x08, 48, 49, 48, 53, 49, 52, 51, 50, 0x07, 0x02, 65, 66,
      0x02, 0x03, 53, 53, 53, 0xA4] blank_data) =
   Inr (1, ''Checksum Passed!!'', Some (''January 05'', ''14 hr : 32 min'', ''AB'', ''555''))
   \<and> feed_result (callerid_feed byte_per_sample (calloc_cid (fskd_example\<lparr>ispb := 1\<rparr>))
       statics_at_start
       ([0x80, 0x13, 0x01, 0x08, 48, 49, 48, 53, 49, 52, 51, 50, 0x07, 0x02, 65, 66,
         0x02, 0x03, 53, 53, 53, 0x00] @ replicate 11 0) 66) =
     Some (Inr (1, ''Checksum Failed!!'', []))"
  by (simp add: decode_CID_msg_def calloc_cid_def statics_at_start_def spill_result_def
        decode_spill_def get_CID_info_def blank_data_def record_strings_def cstr_def months_def
        sprintf_at_def rd_def copy_chars.simps char_of_def date_text_def time_text_def
        callerid_feed_def c_div_def fskd_example_def feed_loop.simps byte_per_sample_def
        feed_result_def carry_over_def)

text \<open>
  C4: the statics of \<^verbatim>\<open>decode_CID_msg\<close> outlive the session. On the way to the
  checksum an MDMF message clears \<^verbatim>\<open>name_field\<close> and \<^verbatim>\<open>number_field\<close>, an SDMF
  message clears \<^verbatim>\<open>number_field\<close> only. After a first session with an SDMF message
  that has a name field (it ends with the checksum passed), \<^verbatim>\<open>name_field\<close> is still
  1. A second, new session then takes a valid MDMF message with the number before the
  name for complete after the number: the marker 0x07 of the name is compared as the
  checksum and the record has no name. From the statics of the program's start the
  same message passes with the name.
\<close>

theorem C4_name_flag_survives_session:
  "decode_outcome (decode_bytes (calloc_cid fskd_example) statics_at_start
     [0x04, 0x06, 0x07, 0x01, 65, 0x02, 0x01, 53, 0x75]) =
   Inr (1, ''Checksum Passed!!'', CHECKSUM, 139,
        \<lparr>name_field = 1, number_field = 0, msg_type = SDMF, msg_off = 0, data_field = 0\<rparr>, [])
   \<and> spill_result (decode_spill (calloc_cid fskd_example)
        \<lparr>name_field = 1, number_field = 0, msg_type = SDMF, msg_off = 0, data_field = 0\<rparr>
        [0x80, 0x13, 0x01, 0x08, 48, 49, 48, 53, 49, 52, 51, 50, 0x02, 0x03, 53, 53, 53,
         0x07, 0x02, 65, 66, 0xA4] blank_data) =
     Inr (1, ''Checksum Failed!!'', Some (''January 05'', ''14 hr : 32 min'', [], ''555''))
   \<and> spill_result (decode_spill (calloc_cid fskd_example) statics_at_start
        [0x80, 0x13, 0x01, 0x08, 48, 49, 48, 53, 49, 52, 51, 50, 0x02, 0x03, 53, 53, 53,
         0x07, 0x02, 65, 66, 0xA4] blank_data) =
     Inr (1, ''Checksum Passed!!'', Some (''January 05'', ''14 hr : 32 min'', ''AB'', ''555''))"
  by (simp add: decode_CID_msg_def calloc_cid_def statics_at_start_def spill_result_def
        decode_spill_def get_CID_info_def blank_data_def record_strings_def cstr_def months_def
        sprintf_at_def rd_def copy_chars.simps char_of_def date_text_def time_text_def
        decode_outcome_def)

section \<open>Properties of the feed\<close>

lemma decode_CID_msg_fskd:
  assumes "decode_CID_msg cid st a = Inr (r, out, cid', st')"
  shows "fskd cid' = fskd cid"
  using assms unfolding decode_CID_msg_def Let_def
  by (simp split: if_splits) auto

lemma decode_CID_msg_oldstuff:
  assumes "decode_CID_msg cid st a = Inr (r, out, cid', st')"
  shows "oldstuff cid' = oldstuff cid"
  using assms unfolding decode_CID_msg_def Let_def
  by (simp split: if_splits) auto

lemma feed_loop_Inr:
  assumes "feed_loop fsk cid st buf mylen b = Some y"
  shows "case y of Inl f \<Rightarrow> True
         | Inr (res, out, cid', st', buf', mylen') \<Rightarrow>
             buf' = drop (nat (mylen - mylen')) buf \<and> mylen' \<le> mylen
             \<and> mylen - mylen' \<le> int (length buf)
             \<and> (res = 0 \<or> res = 1 \<or> res = -1)
             \<and> (res = 0 \<longrightarrow> mylen' < ispb (fskd cid') * 12 \<and> out = [])"
proof (rule feed_loop.raw_induct
    [where P = "\<lambda>fsk cid st buf mylen b y. case y of Inl f \<Rightarrow> True
         | Inr (res, out, cid', st', buf', mylen') \<Rightarrow>
             buf' = drop (nat (mylen - mylen')) buf \<and> mylen' \<le> mylen
             \<and> mylen - mylen' \<le> int (length buf)
             \<and> (res = 0 \<or> res = 1 \<or> res = -1)
             \<and> (res = 0 \<longrightarrow> mylen' < ispb (fskd cid') * 12 \<and> out = [])",
     OF _ assms], goal_cases)
  case (1 f fsk cid st buf mylen b y)
  show ?case
  proof (cases "ispb (fskd cid) * 12 \<le> mylen")
    case False
    with 1(2) have "y = Inr (0, [], cid, st, buf, mylen)" by simp
    with False show ?thesis by simp
  next
    case True
    obtain r fd1 mylen1 b1 where fsk: "fsk (fskd cid) buf mylen b = (r, fd1, mylen1, b1)"
      by (cases "fsk (fskd cid) buf mylen b") auto
    let ?buf1 = "drop (nat (mylen - mylen1)) buf"
    show ?thesis
    proof (cases "mylen - mylen1 < 0 \<or> int (length buf) < mylen - mylen1")
      case True
      with 1(2) \<open>ispb (fskd cid) * 12 \<le> mylen\<close> fsk
      have "y = Inl (Sample_Buffer (mylen - mylen1))" by simp
      then show ?thesis by simp
    next
      case False
      then have adv: "0 \<le> mylen - mylen1" "mylen - mylen1 \<le> int (length buf)" by simp_all
      have comp: "case y of Inl f \<Rightarrow> True
         | Inr (res, out, cid', st', buf', mylen') \<Rightarrow>
             buf' = drop (nat (mylen - mylen')) buf \<and> mylen' \<le> mylen
             \<and> mylen - mylen' \<le> int (length buf)
             \<and> (res = 0 \<or> res = 1 \<or> res = -1)
             \<and> (res = 0 \<longrightarrow> mylen' < ispb (fskd cid') * 12 \<and> out = [])"
        if ih: "case y of Inl f \<Rightarrow> True
         | Inr (res, out, cid', st', buf', mylen') \<Rightarrow>
             buf' = drop (nat (mylen1 - mylen')) ?buf1 \<and> mylen' \<le> mylen1
             \<and> mylen1 - mylen' \<le> int (length ?buf1)
             \<and> (res = 0 \<or> res = 1 \<or> res = -1)
             \<and> (res = 0 \<longrightarrow> mylen' < ispb (fskd cid') * 12 \<and> out = [])"
      proof (cases y)
        case (Inl f)
        then show ?thesis by simp
      next
        case (Inr t)
        obtain res out cid' st' buf' mylen' where t: "t = (res, out, cid', st', buf', mylen')"
          by (cases t) auto
        from ih Inr t have a: "buf' = drop (nat (mylen1 - mylen')) ?buf1" "mylen' \<le> mylen1"
          "mylen1 - mylen' \<le> int (length ?buf1)" "res = 0 \<or> res = 1 \<or> res = -1"
          "res = 0 \<longrightarrow> mylen' < ispb (fskd cid') * 12 \<and> out = []"
          by simp_all
        have h: "nat (mylen1 - mylen') + nat (mylen - mylen1) = nat (mylen - mylen')"
          using a adv by simp
        have "drop (nat (mylen1 - mylen')) ?buf1
                = drop (nat (mylen1 - mylen') + nat (mylen - mylen1)) buf"
          by (rule drop_drop)
        then have "buf' = drop (nat (mylen - mylen')) buf"
          unfolding h using a by simp
        with a adv Inr t show ?thesis by simp
      qed
      show ?thesis
      proof (cases "r = 0")
        case True
        with 1(2) \<open>ispb (fskd cid) * 12 \<le> mylen\<close> fsk False
        have "f fsk (cid\<lparr>fskd := fd1\<rparr>) st ?buf1 mylen1 b1 = Some y"
          by simp
        from comp [OF 1(1) [OF this]] show ?thesis .
      next
        case r: False
        show ?thesis
        proof (cases "decode_CID_msg (cid\<lparr>fskd := fd1\<rparr>) st b1")
          case (Inl e)
          with 1(2) \<open>ispb (fskd cid) * 12 \<le> mylen\<close> fsk False r have "y = Inl e"
            by simp
          then show ?thesis by simp
        next
          case (Inr t)
          then obtain r2 out2 cid2 st2 where
            dec: "decode_CID_msg (cid\<lparr>fskd := fd1\<rparr>) st b1 = Inr (r2, out2, cid2, st2)"
            by (cases t) auto
          show ?thesis
          proof (cases "r2 = 0")
            case True
            with 1(2) \<open>ispb (fskd cid) * 12 \<le> mylen\<close> fsk False r dec
            have "f fsk cid2 st2 ?buf1 mylen1 b1 = Some y"
              by simp
            from comp [OF 1(1) [OF this]] show ?thesis .
          next
            case r2: False
            with 1(2) \<open>ispb (fskd cid) * 12 \<le> mylen\<close> fsk False r dec
            have "y = Inr (if r2 = -1 then -1 else 1, out2, cid2, st2, ?buf1, mylen1)"
              by (auto split: if_splits)
            with adv show ?thesis by simp
          qed
        qed
      qed
    qed
  qed
qed


lemma feed_loop_returns:
  assumes consume: "\<And>fd buf len b res fd' len' b'.
      fsk fd buf len b = (res, fd', len', b') \<Longrightarrow> len' < len \<and> ispb fd' = ispb fd"
  shows "\<exists>y. feed_loop fsk cid st buf mylen b = Some y"
proof (induction "nat (mylen - ispb (fskd cid) * 12 + 1)" arbitrary: cid st buf mylen b
         rule: less_induct)
  case less
  show ?case
  proof (cases "ispb (fskd cid) * 12 \<le> mylen")
    case False
    then show ?thesis by (subst feed_loop.simps) simp
  next
    case True
    obtain r fd1 mylen1 b1 where fsk: "fsk (fskd cid) buf mylen b = (r, fd1, mylen1, b1)"
      by (cases "fsk (fskd cid) buf mylen b") auto
    from consume [OF fsk] have dec: "mylen1 < mylen" "ispb fd1 = ispb (fskd cid)" by simp_all
    let ?buf1 = "drop (nat (mylen - mylen1)) buf"
    have rec: "\<exists>y. feed_loop fsk c s ?buf1 mylen1 b1 = Some y" if "ispb (fskd c) = ispb (fskd cid)" for c s
      using that dec True by (intro less) simp
    show ?thesis
    proof (cases "mylen - mylen1 < 0 \<or> int (length buf) < mylen - mylen1")
      case True
      with \<open>ispb (fskd cid) * 12 \<le> mylen\<close> fsk show ?thesis
        by (subst feed_loop.simps) simp
    next
      case adv: False
      show ?thesis
      proof (cases "r = 0")
        case True
        from rec [of "cid\<lparr>fskd := fd1\<rparr>" st] dec
        obtain y where "feed_loop fsk (cid\<lparr>fskd := fd1\<rparr>) st ?buf1 mylen1 b1 = Some y" by auto
        with \<open>ispb (fskd cid) * 12 \<le> mylen\<close> fsk adv True show ?thesis
          by (subst feed_loop.simps) simp
      next
        case r: False
        show ?thesis
        proof (cases "decode_CID_msg (cid\<lparr>fskd := fd1\<rparr>) st b1")
          case (Inl e)
          with \<open>ispb (fskd cid) * 12 \<le> mylen\<close> fsk adv r show ?thesis
            by (subst feed_loop.simps) simp
        next
          case (Inr t)
          then obtain r2 out2 cid2 st2 where
            d: "decode_CID_msg (cid\<lparr>fskd := fd1\<rparr>) st b1 = Inr (r2, out2, cid2, st2)"
            by (cases t) auto
          from decode_CID_msg_fskd [OF d] dec have "ispb (fskd cid2) = ispb (fskd cid)" by simp
          from rec [OF this, of st2]
          obtain y where "feed_loop fsk cid2 st2 ?buf1 mylen1 b1 = Some y" by auto
          with \<open>ispb (fskd cid) * 12 \<le> mylen\<close> fsk adv r d show ?thesis
            by (subst feed_loop.simps) simp
        qed
      qed
    qed
  qed
qed


lemma c_div_double: "0 \<le> m \<Longrightarrow> c_div (m * 2) 2 = m"
  by (cases "m = 0") (simp_all add: c_div_def)

lemma callerid_feed_returns:
  assumes "\<And>fd buf len b res fd' len' b'.
      fsk fd buf len b = (res, fd', len', b') \<Longrightarrow> len' < len \<and> ispb fd' = ispb fd"
  shows "\<exists>y. callerid_feed fsk cid st temp_buf len = Some y"
proof -
  have "\<exists>y. feed_loop fsk cid st
       (take (nat (c_div (oldlen cid) 2)) (oldstuff cid) @ take (nat (c_div len 2)) temp_buf)
       (c_div len 2 + c_div (oldlen cid) 2) 88 = Some y"
  proof (rule feed_loop_returns)
    fix fd buf len b res fd' len' b'
    assume "fsk fd buf len b = (res, fd', len', b')"
    then show "len' < len \<and> ispb fd' = ispb fd" by (rule assms)
  qed
  then show ?thesis
    unfolding callerid_feed_def Let_def
    by (auto split: sum.splits prod.splits)
qed

text \<open>
  With a demodulator that delivers one byte per sample and a window of one sample per
  bit, the feed loop is the byte decoder: it hands the bytes to \<open>decode_CID_msg\<close> one by
  one and stops at the first non-zero result, as \<open>decode_bytes\<close> does.
\<close>

lemma byte_per_sample_Cons: "byte_per_sample fd (x # xs) len b = (1, fd, len - 1, x)"
  by (simp add: byte_per_sample_def)

lemma feed_loop_byte_per_sample:
  assumes "ispb (fskd cid) = 1" and "length pad = 11"
  shows "feed_loop byte_per_sample cid st (bs @ pad) (int (length bs) + 11) b =
     (case decode_bytes cid st bs of
        Inl f \<Rightarrow> Some (Inl f)
      | Inr (r, out, cid', st', rest) \<Rightarrow>
          Some (Inr (r, out, cid', st', rest @ pad, int (length rest) + 11)))"
  using assms
proof (induction bs arbitrary: cid st b)
  case Nil
  then show ?case by (subst feed_loop.simps) simp
next
  case (Cons x bs)
  show ?case
  proof (cases "decode_CID_msg cid st x")
    case (Inl f)
    with Cons.prems show ?thesis
      by (subst feed_loop.simps) (simp add: byte_per_sample_Cons add.commute)
  next
    case (Inr t)
    then obtain r out cid' st' where
      d: "decode_CID_msg cid st x = Inr (r, out, cid', st')" by (cases t) auto
    show ?thesis
    proof (cases "r = 0")
      case True
      from decode_CID_msg_fskd [OF d] Cons.prems have "ispb (fskd cid') = 1" by simp
      from Cons.IH [OF this Cons.prems(2), of st' x]
      show ?thesis
        using Cons.prems d True
        by (subst feed_loop.simps) (simp add: byte_per_sample_Cons add.commute)
    next
      case False
      with Cons.prems d show ?thesis
        by (subst feed_loop.simps) (simp add: byte_per_sample_Cons add.commute)
    qed
  qed
qed

text \<open>
  For every demodulator, a feed that returns 0 has left the loop with fewer samples
  than \<^verbatim>\<open>ispb * 12\<close>: its carry-over is shorter than one window, \<^verbatim>\<open>oldlen\<close> is the
  length of the carry-over in bytes, and the carry-over is a tail, in order, of the
  previous carry-over followed by the new samples.
\<close>

lemma callerid_feed_zero_carry_over:
  assumes "callerid_feed fsk cid st temp_buf len = Some (Inr (0, out, cid', st'))"
  shows "int (length (carry_over cid')) < ispb (fskd cid') * 12
       \<and> oldlen cid' = 2 * int (length (carry_over cid'))
       \<and> carry_over cid' =
           drop (length (carry_over cid @ take (nat (c_div len 2)) temp_buf)
                   - length (carry_over cid'))
             (carry_over cid @ take (nat (c_div len 2)) temp_buf)"
proof -
  define l where "l = c_div len 2"
  define old where "old = c_div (oldlen cid) 2"
  define buf0 where "buf0 = take (nat old) (oldstuff cid) @ take (nat l) temp_buf"
  from assms have g1: "0 \<le> l" "l \<le> int (length temp_buf)"
    and g2: "0 \<le> old" "old \<le> int (length (oldstuff cid))"
    unfolding callerid_feed_def Let_def l_def old_def
    by (auto split: if_splits)
  have len0: "int (length buf0) = l + old"
    using g1 g2 by (simp add: buf0_def)
  have co: "carry_over cid = take (nat old) (oldstuff cid)"
    by (simp add: carry_over_def old_def)
  from assms g1 g2 obtain res out1 c1 s1 buf1 m1 where
    loop: "feed_loop fsk cid st buf0 (l + old) 88 = Some (Inr (res, out1, c1, s1, buf1, m1))"
    unfolding callerid_feed_def Let_def l_def [symmetric] old_def [symmetric] buf0_def [symmetric]
    by (auto split: if_splits option.splits sum.splits)
  from feed_loop_Inr [OF loop]
  have inv: "buf1 = drop (nat (l + old - m1)) buf0" "m1 \<le> l + old"
    "l + old - m1 \<le> int (length buf0)"
    "res = 0 \<longrightarrow> m1 < ispb (fskd c1) * 12 \<and> out1 = []"
    by simp_all
  from assms g1 g2 loop have res: "res = 0"
    unfolding callerid_feed_def Let_def l_def [symmetric] old_def [symmetric] buf0_def [symmetric]
    by (auto split: if_splits)
  have len1: "int (length buf1) = m1 \<or> (m1 < 0 \<and> buf1 = buf0)"
    using inv len0 by auto
  show ?thesis
  proof (cases "m1 = 0")
    case True
    with assms g1 g2 loop res have "cid' = c1\<lparr>oldlen := 0\<rparr>"
      unfolding callerid_feed_def Let_def l_def [symmetric] old_def [symmetric] buf0_def [symmetric]
      by simp
    with True inv res len0 show ?thesis
      by (simp add: carry_over_def c_div_def co l_def [symmetric] buf0_def [symmetric])
  next
    case False
    with assms g1 g2 loop res
    have m1: "0 \<le> m1" "m1 \<le> int (length buf1)" "m1 \<le> int (length (oldstuff c1))"
      and cid': "cid' = c1\<lparr>oldstuff := take (nat m1) buf1 @ drop (nat m1) (oldstuff c1),
                            oldlen := m1 * 2\<rparr>"
      unfolding callerid_feed_def Let_def l_def [symmetric] old_def [symmetric] buf0_def [symmetric]
      by (auto split: if_splits)
    from len1 m1 False have lb: "int (length buf1) = m1" by auto
    have "carry_over cid' = take (nat m1) (take (nat m1) buf1 @ drop (nat m1) (oldstuff c1))"
      using m1 by (simp add: carry_over_def cid' c_div_double)
    also have "\<dots> = buf1" using lb by simp
    finally have c: "carry_over cid' = buf1" .
    have "length buf0 - length buf1 = nat (l + old - m1)"
      using len0 lb inv by simp
    with c inv res cid' lb show ?thesis
      by (simp add: co l_def [symmetric] buf0_def [symmetric])
  qed
qed

text \<open>
  The loop ends, and leaves \<^verbatim>\<open>ispb\<close> and \<^verbatim>\<open>oldstuff\<close> as they were, for every
  demodulator that takes at least one of the samples it is given and leaves \<^verbatim>\<open>ispb\<close>
  alone.
\<close>

lemma feed_loop_total:
  assumes consume: "\<And>fd buf n b res fd' n' b'.
      0 < n \<Longrightarrow> int (length buf) = n \<Longrightarrow> fsk fd buf n b = (res, fd', n', b')
        \<Longrightarrow> n' < n \<and> ispb fd' = ispb fd"
    and "0 < ispb (fskd cid)" and "int (length buf) = mylen"
  shows "\<exists>y. feed_loop fsk cid st buf mylen b = Some y
          \<and> (case y of Inl f \<Rightarrow> True
             | Inr (r, out, cid', st', buf', mylen') \<Rightarrow>
                 ispb (fskd cid') = ispb (fskd cid) \<and> oldstuff cid' = oldstuff cid)"
  using assms(2,3)
proof (induction "nat mylen" arbitrary: cid st buf mylen b rule: less_induct)
  case less
  show ?case
  proof (cases "ispb (fskd cid) * 12 \<le> mylen")
    case False
    then show ?thesis by (subst feed_loop.simps) simp
  next
    case True
    with less.prems have pos: "0 < mylen" by simp
    obtain r fd1 mylen1 b1 where fsk: "fsk (fskd cid) buf mylen b = (r, fd1, mylen1, b1)"
      by (cases "fsk (fskd cid) buf mylen b") auto
    from consume [OF pos less.prems(2) fsk]
    have dec: "mylen1 < mylen" "ispb fd1 = ispb (fskd cid)" by simp_all
    let ?buf1 = "drop (nat (mylen - mylen1)) buf"
    show ?thesis
    proof (cases "mylen - mylen1 < 0 \<or> int (length buf) < mylen - mylen1")
      case True
      with \<open>ispb (fskd cid) * 12 \<le> mylen\<close> fsk show ?thesis
        by (subst feed_loop.simps) simp
    next
      case adv: False
      with less.prems have l1: "int (length ?buf1) = mylen1" "nat mylen1 < nat mylen"
        using dec by auto
      have rec: "\<exists>y. feed_loop fsk c s ?buf1 mylen1 b1 = Some y
          \<and> (case y of Inl f \<Rightarrow> True
             | Inr (r, out, cid', st', buf', mylen') \<Rightarrow>
                 ispb (fskd cid') = ispb (fskd cid) \<and> oldstuff cid' = oldstuff cid)"
        if "ispb (fskd c) = ispb (fskd cid)" "oldstuff c = oldstuff cid" for c s
      proof -
        from that less.prems have "0 < ispb (fskd c)" by simp
        from less.hyps [OF l1(2) this l1(1), of s b1] show ?thesis
          unfolding that .
      qed
      show ?thesis
      proof (cases "r = 0")
        case True
        from rec [of "cid\<lparr>fskd := fd1\<rparr>" st] dec
        obtain y where "feed_loop fsk (cid\<lparr>fskd := fd1\<rparr>) st ?buf1 mylen1 b1 = Some y"
          "case y of Inl f \<Rightarrow> True
             | Inr (r, out, cid', st', buf', mylen') \<Rightarrow>
                 ispb (fskd cid') = ispb (fskd cid) \<and> oldstuff cid' = oldstuff cid"
          by auto
        with \<open>ispb (fskd cid) * 12 \<le> mylen\<close> fsk adv True show ?thesis
          by (subst feed_loop.simps) simp
      next
        case r: False
        show ?thesis
        proof (cases "decode_CID_msg (cid\<lparr>fskd := fd1\<rparr>) st b1")
          case (Inl e)
          with \<open>ispb (fskd cid) * 12 \<le> mylen\<close> fsk adv r show ?thesis
            by (subst feed_loop.simps) simp
        next
          case (Inr t)
          then obtain r2 out2 cid2 st2 where
            d: "decode_CID_msg (cid\<lparr>fskd := fd1\<rparr>) st b1 = Inr (r2, out2, cid2, st2)"
            by (cases t) auto
          from decode_CID_msg_fskd [OF d] dec have i2: "ispb (fskd cid2) = ispb (fskd cid)" by simp
          from decode_CID_msg_oldstuff [OF d] have o2: "oldstuff cid2 = oldstuff cid" by simp
          from rec [OF i2 o2, of st2]
          obtain y where "feed_loop fsk cid2 st2 ?buf1 mylen1 b1 = Some y"
            "case y of Inl f \<Rightarrow> True
             | Inr (r, out, cid', st', buf', mylen') \<Rightarrow>
                 ispb (fskd cid') = ispb (fskd cid) \<and> oldstuff cid' = oldstuff cid"
            by auto
          with \<open>ispb (fskd cid) * 12 \<le> mylen\<close> fsk adv r d i2 o2 show ?thesis
            by (subst feed_loop.simps) simp
        qed
      qed
    qed
  qed
qed

text \<open>
  A feed whose samples, with those carried over, stay below the window does not call
  the demodulator: it returns 0 and the carry-over is the previous carry-over followed
  by the new samples, as long as they fit \<^verbatim>\<open>oldstuff\<close>.
\<close>

lemma feed_below_window:
  assumes "c_div len 2 + c_div (oldlen cid) 2 < ispb (fskd cid) * 12"
    and "length (oldstuff cid) = 1000" and "0 \<le> oldlen cid" and "oldlen cid \<le> 2000"
    and "0 \<le> len" and "c_div len 2 \<le> int (length temp_buf)"
    and "c_div len 2 + c_div (oldlen cid) 2 \<le> 1000"
  shows "callerid_feed fsk cid st temp_buf len =
     Some (Inr (0, [],
       cid\<lparr>oldstuff := (carry_over cid @ take (nat (c_div len 2)) temp_buf) @
                 drop (length (carry_over cid @ take (nat (c_div len 2)) temp_buf)) (oldstuff cid),
           oldlen := 2 * int (length (carry_over cid @ take (nat (c_div len 2)) temp_buf))\<rparr>, st))"
proof -
  define l where "l = c_div len 2"
  define old where "old = c_div (oldlen cid) 2"
  define buf0 where "buf0 = take (nat old) (oldstuff cid) @ take (nat l) temp_buf"
  have g: "0 \<le> l" "0 \<le> old" "old \<le> 1000"
    using assms(3,4,5) by (auto simp: l_def old_def c_div_def sgn_if)
  have co: "carry_over cid @ take (nat l) temp_buf = buf0"
    by (simp add: carry_over_def old_def buf0_def)
  have loop: "feed_loop fsk cid st buf0 (l + old) 88 = Some (Inr (0, [], cid, st, buf0, l + old))"
    using assms(1) by (subst feed_loop.simps) (simp add: l_def old_def)
  have len0: "int (length buf0) = l + old"
    using g assms(2,6) by (simp add: l_def [symmetric] buf0_def)
  then have n: "nat (l + old) = length buf0" by simp
  have pre: "\<not> (l < 0 \<or> int (length temp_buf) < l)"
    "\<not> (old < 0 \<or> int (length (oldstuff cid)) < old)"
    "\<not> (l + old < 0 \<or> int (length buf0) < l + old)"
    "\<not> int (length (oldstuff cid)) < l + old"
    using g assms(2,6,7) len0 by (simp_all add: l_def [symmetric] old_def [symmetric])
  have feed: "callerid_feed fsk cid st temp_buf len =
     (if l + old \<noteq> 0
      then Some (Inr (0, [], cid\<lparr>oldstuff := take (nat (l + old)) buf0 @
                                     drop (nat (l + old)) (oldstuff cid),
                                   oldlen := (l + old) * 2\<rparr>, st))
      else Some (Inr (0, [], cid\<lparr>oldlen := 0\<rparr>, st)))"
    unfolding callerid_feed_def Let_def l_def [symmetric] old_def [symmetric] buf0_def [symmetric]
    using pre loop by simp
  show ?thesis
  proof (cases "l + old = 0")
    case True
    with len0 have "buf0 = []" by simp
    with True feed show ?thesis
      unfolding l_def [symmetric] co by simp
  next
    case False
    with feed show ?thesis
      unfolding l_def [symmetric] co n by (simp add: len0 [symmetric])
  qed
qed

text \<open>
  C9: \<^verbatim>\<open>oldstuff\<close> holds 1000 samples, and nothing in \<^verbatim>\<open>callerid_feed\<close> compares
  the number of samples left with that. Take a session with a window of at most 1001
  samples (\<^verbatim>\<open>ispb\<close> from 1 to 83) and a carry-over within \<^verbatim>\<open>oldstuff\<close>, a buffer of
  \<^verbatim>\<open>len\<close> bytes, and a demodulator that takes at least one of the samples it is given
  and leaves \<^verbatim>\<open>ispb\<close> alone. Then the loop ends, and the feed returns what the loop
  gives: a fault, or the result 1 or -1 of the decoder from inside the loop, or, at the
  regular end of the loop, 0 with the samples that the loop left stored as the
  carry-over. Those are fewer than \<^verbatim>\<open>ispb * 12\<close>, they are the tail, in order, of the
  previous carry-over followed by the new samples, \<^verbatim>\<open>oldlen\<close> is their length in
  bytes, and the session is again one with its carry-over within \<^verbatim>\<open>oldstuff\<close> and the
  same \<^verbatim>\<open>ispb\<close>. Where the previous carry-over and the new samples together are
  fewer than \<^verbatim>\<open>ispb * 12\<close>, the loop ends at once and leaves all of them.
\<close>

theorem C9_residual_stored:
  assumes consume: "\<forall>fd buf n b res fd' n' b'.
      0 < n \<longrightarrow> int (length buf) = n \<longrightarrow> fsk fd buf n b = (res, fd', n', b')
        \<longrightarrow> n' < n \<and> ispb fd' = ispb fd"
    and window: "0 < ispb (fskd cid)" "ispb (fskd cid) * 12 \<le> 1001"
    and old: "length (oldstuff cid) = 1000" "0 \<le> oldlen cid" "oldlen cid \<le> 2000"
    and new: "0 \<le> len" "c_div len 2 \<le> int (length temp_buf)"
  shows "\<exists>y. feed_loop fsk cid st (carry_over cid @ take (nat (c_div len 2)) temp_buf)
               (c_div len 2 + c_div (oldlen cid) 2) 88 = Some y
       \<and> (case y of
            Inl f \<Rightarrow> callerid_feed fsk cid st temp_buf len = Some (Inl f)
          | Inr (r, out, cid1, st1, buf1, m1) \<Rightarrow>
              if r \<noteq> 0 then callerid_feed fsk cid st temp_buf len = Some (Inr (r, out, cid1, st1))
              else (\<exists>cid'. callerid_feed fsk cid st temp_buf len = Some (Inr (0, out, cid', st1))
                 \<and> cid' = cid1\<lparr>oldstuff := buf1 @ drop (length buf1) (oldstuff cid),
                               oldlen := 2 * int (length buf1)\<rparr>
                 \<and> length (oldstuff cid') = 1000 \<and> oldlen cid' \<le> 2000
                 \<and> ispb (fskd cid') = ispb (fskd cid)
                 \<and> carry_over cid' = buf1
                 \<and> int (length buf1) = m1
                 \<and> int (length buf1) < ispb (fskd cid) * 12
                 \<and> buf1 = drop (length (carry_over cid @ take (nat (c_div len 2)) temp_buf)
                                 - length buf1)
                            (carry_over cid @ take (nat (c_div len 2)) temp_buf)))
       \<and> (c_div len 2 + c_div (oldlen cid) 2 < ispb (fskd cid) * 12 \<longrightarrow>
            y = Inr (0, [], cid, st, carry_over cid @ take (nat (c_div len 2)) temp_buf,
                     c_div len 2 + c_div (oldlen cid) 2))"
proof -
  define l where "l = c_div len 2"
  define old where "old = c_div (oldlen cid) 2"
  define buf0 where "buf0 = take (nat old) (oldstuff cid) @ take (nat l) temp_buf"
  have g1: "0 \<le> l" using new(1) by (simp add: l_def c_div_def sgn_if)
  have g2: "0 \<le> old" "old \<le> 1000" using old(2,3) by (auto simp: old_def c_div_def sgn_if)
  have len0: "int (length buf0) = l + old"
    using g1 g2 new(2) old(1) by (simp add: buf0_def l_def [symmetric])
  have co: "carry_over cid = take (nat old) (oldstuff cid)"
    by (simp add: carry_over_def old_def)
  have "\<exists>y. feed_loop fsk cid st buf0 (l + old) 88 = Some y
          \<and> (case y of Inl f \<Rightarrow> True
             | Inr (r, out, cid', st', buf', mylen') \<Rightarrow>
                 ispb (fskd cid') = ispb (fskd cid) \<and> oldstuff cid' = oldstuff cid)"
  proof (rule feed_loop_total)
    fix fd buf n b res fd' n' b'
    assume "0 < n" "int (length buf) = n" "fsk fd buf n b = (res, fd', n', b')"
    with consume show "n' < n \<and> ispb fd' = ispb fd" by blast
  next
    show "0 < ispb (fskd cid)" by (rule window(1))
  next
    show "int (length buf0) = l + old" by (rule len0)
  qed
  then obtain y where loop: "feed_loop fsk cid st buf0 (l + old) 88 = Some y"
    and pres: "case y of Inl f \<Rightarrow> True
             | Inr (r, out, cid', st', buf', mylen') \<Rightarrow>
                 ispb (fskd cid') = ispb (fskd cid) \<and> oldstuff cid' = oldstuff cid"
    by blast
  note inv = feed_loop_Inr [OF loop]
  have below: "l + old < ispb (fskd cid) * 12 \<longrightarrow> y = Inr (0, [], cid, st, buf0, l + old)"
  proof
    assume "l + old < ispb (fskd cid) * 12"
    then have "feed_loop fsk cid st buf0 (l + old) 88
        = Some (Inr (0, [], cid, st, buf0, l + old))"
      by (subst feed_loop.simps) simp
    with loop show "y = Inr (0, [], cid, st, buf0, l + old)" by simp
  qed
  have pre: "\<not> (l < 0 \<or> int (length temp_buf) < l)" "\<not> (old < 0 \<or> int (length (oldstuff cid)) < old)"
    using g1 g2 new(2) old(1) by (simp_all add: l_def [symmetric])
  have feed: "callerid_feed fsk cid st temp_buf len =
     (case y of
        Inl f \<Rightarrow> Some (Inl f)
      | Inr (res, out, cid', st', buf', mylen') \<Rightarrow>
             if res \<noteq> 0 then Some (Inr (res, out, cid', st'))
             else if mylen' \<noteq> 0 then
               (if mylen' < 0 \<or> int (length buf') < mylen' then Some (Inl (Sample_Buffer mylen'))
                else if int (length (oldstuff cid')) < mylen'
                then Some (Inl (Oldstuff_Overflow mylen'))
                else Some (Inr (0, out,
                       cid'\<lparr>oldstuff := take (nat mylen') buf' @ drop (nat mylen') (oldstuff cid'),
                            oldlen := mylen' * 2\<rparr>, st')))
             else Some (Inr (0, out, cid'\<lparr>oldlen := 0\<rparr>, st')))"
    unfolding callerid_feed_def Let_def l_def [symmetric] old_def [symmetric]
    using pre loop by (simp add: buf0_def [symmetric] split: sum.splits)
  show ?thesis
  proof (cases y)
    case (Inl f)
    with loop feed below show ?thesis
      by (simp add: co l_def [symmetric] old_def [symmetric] buf0_def [symmetric])
  next
    case (Inr t)
    obtain r out cid1 st1 buf1 m1 where t: "t = (r, out, cid1, st1, buf1, m1)"
      by (cases t) auto
    from inv Inr t have a: "buf1 = drop (nat (l + old - m1)) buf0" "m1 \<le> l + old"
      "l + old - m1 \<le> int (length buf0)" "r = 0 \<longrightarrow> m1 < ispb (fskd cid1) * 12"
      by simp_all
    from pres Inr t have p: "ispb (fskd cid1) = ispb (fskd cid)" "oldstuff cid1 = oldstuff cid"
      by simp_all
    from a len0 have m1: "0 \<le> m1" "int (length buf1) = m1" by auto
    have suffix: "buf1 = drop (length buf0 - length buf1) buf0"
    proof -
      have "length buf0 - length buf1 = nat (l + old - m1)" using len0 m1 a by simp
      with a show ?thesis by simp
    qed
    show ?thesis
    proof (cases "r = 0")
      case False
      with loop feed below Inr t show ?thesis
        by (simp add: co l_def [symmetric] old_def [symmetric] buf0_def [symmetric])
    next
      case True
      with a p window have fit: "m1 < ispb (fskd cid) * 12" "m1 \<le> 1000" by simp_all
      have tk: "take (nat m1) buf1 = buf1" "nat m1 = length buf1" using m1 by simp_all
      have res: "callerid_feed fsk cid st temp_buf len =
          Some (Inr (0, out, cid1\<lparr>oldstuff := buf1 @ drop (length buf1) (oldstuff cid),
                               oldlen := 2 * int (length buf1)\<rparr>, st1))"
      proof (cases "m1 = 0")
        case z: True
        with m1 have "buf1 = []" by simp
        with feed Inr t True z p show ?thesis by simp
      next
        case nz: False
        with feed Inr t True m1 fit p old(1) show ?thesis
          by (simp add: tk)
      qed
      have car: "carry_over (cid1\<lparr>oldstuff := buf1 @ drop (length buf1) (oldstuff cid),
                               oldlen := 2 * int (length buf1)\<rparr>) = buf1"
        by (simp add: carry_over_def c_div_def sgn_if)
      have keep: "length (buf1 @ drop (length buf1) (oldstuff cid)) = 1000"
        "2 * int (length buf1) \<le> 2000"
        using m1 fit old(1) by simp_all
      from res car keep p m1 fit suffix loop below Inr t True show ?thesis
        by (simp add: co l_def [symmetric] old_def [symmetric] buf0_def [symmetric])
    qed
  qed
qed

theorem C9_residual_stored_witness:
  "callerid_feed byte_per_sample (calloc_cid (fskd_example\<lparr>ispb := 1\<rparr>)) statics_at_start
     [0x80, 0x13, 0x01, 0x08, 48, 49, 48, 53, 49, 52, 51, 50, 0x07, 0x02, 65, 66] 32
    = Some (Inr (0, [], fed_example,
          \<lparr>name_field = 0, number_field = 0, msg_type = MDMF, msg_off = 5, data_field = 7\<rparr>))
   \<and> carry_over fed_example = [49, 48, 53, 49, 52, 51, 50, 0x07, 0x02, 65, 66]
   \<and> callerid_feed byte_per_sample (calloc_cid (fskd_example\<lparr>ispb := 1\<rparr>)) statics_at_start
     [0x80, 0x13, 0x01, 0x08, 48] 10
    = Some (Inr (0, [],
          (calloc_cid (fskd_example\<lparr>ispb := 1\<rparr>))
            \<lparr>oldstuff := [0x80, 0x13, 0x01, 0x08, 48] @ replicate 995 0, oldlen := 10\<rparr>,
          statics_at_start))"
proof -
  let ?C = "calloc_cid (fskd_example\<lparr>ispb := 1\<rparr>)"
  let ?bytes = "[0x80, 0x13, 0x01, 0x08, 48, 49, 48, 53, 49, 52, 51, 50, 0x07, 0x02, 65, 66] :: int list"
  let ?few = "[0x80, 0x13, 0x01, 0x08, 48] :: int list"
  have contract: "\<forall>(fd :: unit fsk_data) buf n b res fd' n' b'.
      0 < n \<longrightarrow> int (length buf) = n \<longrightarrow> byte_per_sample fd buf n b = (res, fd', n', b')
        \<longrightarrow> n' < n \<and> ispb fd' = ispb fd"
    by (auto simp: byte_per_sample_def split: list.splits)
  have loop: "feed_loop byte_per_sample ?C statics_at_start
       (carry_over ?C @ take (nat (c_div 32 2)) ?bytes) (c_div 32 2 + c_div (oldlen ?C) 2) 88
     = Some (Inr (0, [], fed_example\<lparr>oldstuff := replicate 1000 0, oldlen := 0\<rparr>,
          \<lparr>name_field = 0, number_field = 0, msg_type = MDMF, msg_off = 5, data_field = 7\<rparr>,
          [49, 48, 53, 49, 52, 51, 50, 0x07, 0x02, 65, 66], 11))"
    by (simp add: carry_over_def c_div_def calloc_cid_def statics_at_start_def fskd_example_def
       feed_loop.simps byte_per_sample_def decode_CID_msg_def fed_example_def)
  have "0 < ispb (fskd ?C)" "ispb (fskd ?C) * 12 \<le> 1001" "length (oldstuff ?C) = 1000"
    "0 \<le> oldlen ?C" "oldlen ?C \<le> 2000"
    by (simp_all add: calloc_cid_def)
  note session = this
  have "0 \<le> (32 :: int)" "c_div 32 2 \<le> int (length ?bytes)" by (simp_all add: c_div_def)
  from C9_residual_stored [of byte_per_sample ?C 32 ?bytes statics_at_start,
      OF contract session this] loop
  have long: "callerid_feed byte_per_sample ?C statics_at_start ?bytes 32
       = Some (Inr (0, [], fed_example,
          \<lparr>name_field = 0, number_field = 0, msg_type = MDMF, msg_off = 5, data_field = 7\<rparr>))
     \<and> carry_over fed_example = [49, 48, 53, 49, 52, 51, 50, 0x07, 0x02, 65, 66]"
    by (simp add: fed_example_def calloc_cid_def)
  have "0 \<le> (10 :: int)" "c_div 10 2 \<le> int (length ?few)" by (simp_all add: c_div_def)
  from C9_residual_stored [of byte_per_sample ?C 10 ?few statics_at_start,
      OF contract session this]
  have short: "callerid_feed byte_per_sample ?C statics_at_start ?few 10
    = Some (Inr (0, [], ?C\<lparr>oldstuff := ?few @ replicate 995 0, oldlen := 10\<rparr>, statics_at_start))"
    by (simp add: calloc_cid_def carry_over_def c_div_def)
  from long short show ?thesis by simp
qed

text \<open>
  C9, as the claim states it, fails for a window above 1001 samples. With 84 samples
  per bit the window is 1008 samples; a feed of 1004 samples to a new session ends
  below the window without a call of the demodulator, and the copy of the 1004 samples
  left runs past the 1000 samples of \<^verbatim>\<open>oldstuff\<close>, onto the fields \<^verbatim>\<open>oldlen\<close> and
  \<^verbatim>\<open>pos\<close> that follow it in \<^verbatim>\<open>struct callerid_state\<close>.
\<close>

theorem C9_counterexample:
  "callerid_new (/) id () 0 \<lparr>samp_rate = 101100, baud_rate = 1200, ispb_f = 337 / 4\<rparr>
     = Inr (calloc_cid fskd_wide)
   \<and> callerid_feed byte_per_sample (calloc_cid fskd_wide) statics_at_start
       (replicate 1004 0) 2008
     = Some (Inl (Oldstuff_Overflow 1004))"
proof -
  have f1: "\<lfloor>337 / 4 :: rat\<rfloor> = 84" by (rule floor_unique) simp_all
  have "callerid_new (/) id () 0 \<lparr>samp_rate = 101100, baud_rate = 1200, ispb_f = 337 / 4\<rparr>
     = Inr (calloc_cid fskd_wide)"
    by (simp add: callerid_new_def float_to_int_def c_div_def fskd_wide_def fskd_example_def
          Let_def f1)
  moreover have "callerid_feed byte_per_sample (calloc_cid fskd_wide) statics_at_start
       (replicate 1004 0) 2008
     = Some (Inl (Oldstuff_Overflow 1004))"
    by (simp add: callerid_feed_def c_div_def calloc_cid_def fskd_wide_def fskd_example_def
          feed_loop.simps)
  ultimately show ?thesis by simp
qed

section \<open>Properties of the field extraction\<close>

lemma rd_at:
  assumes "int (length pre) = i"
  shows "rd (pre @ x # post) i = Inr x"
  using assms by (auto simp: rd_def)

lemma sprintf_at_char:
  assumes "0 \<le> i" and "i + 2 \<le> int (length buf)"
  shows "sprintf_at buf i [c] = Inr (take (nat i) buf @ [c, NUL] @ drop (nat i + 2) buf)"
  using assms by (simp add: sprintf_at_def)

lemma drop_patch:
  assumes "k + length ys \<le> m" and "k \<le> length xs"
  shows "drop m (take k xs @ ys @ drop (k + length ys) xs) = drop m xs"
proof -
  obtain j where m: "m = j + (k + length ys)"
    using assms(1) by (metis add.commute le_Suc_ex)
  have "drop (k + length ys) (take k xs @ ys @ drop (k + length ys) xs) = drop (k + length ys) xs"
    using assms(2) by (simp add: min_def)
  then have "drop j (drop (k + length ys) (take k xs @ ys @ drop (k + length ys) xs))
               = drop j (drop (k + length ys) xs)"
    by simp
  then show ?thesis
    unfolding m drop_drop .
qed

lemma copy_chars_step:
  assumes "i < n" and "rd raw (base + i) = Inr c" and "sprintf_at buf i [char_of c] = Inr buf'"
  shows "copy_chars raw n base i buf = copy_chars raw n base (i + 1) buf'"
  by (subst copy_chars.simps) (simp add: assms)

lemma copy_chars_none:
  "n \<le> i \<Longrightarrow> copy_chars raw n base i buf = Inr (i, buf)"
  by (subst copy_chars.simps) simp

lemma copy_chars_segment:
  assumes "seg \<noteq> []" and "int (length pre) = base + i" and "n = i + int (length seg)"
    and "0 \<le> i" and "n + 1 \<le> int (length buf)"
  shows "copy_chars (pre @ seg @ post) n base i buf =
           Inr (n, take (nat i) buf @ map char_of seg @ [NUL] @ drop (nat n + 1) buf)"
  using assms
proof (induction seg arbitrary: pre i buf rule: list_nonempty_induct)
  case (single s)
  let ?buf1 = "take (nat i) buf @ [char_of s, NUL] @ drop (nat i + 2) buf"
  have a: "rd (pre @ [s] @ post) (base + i) = Inr s"
    using single by (simp add: rd_at)
  have b: "sprintf_at buf i [char_of s] = Inr ?buf1"
    using single by (intro sprintf_at_char) simp_all
  have c: "nat n = nat i + 1" using single by simp
  have "copy_chars (pre @ [s] @ post) n base i buf = copy_chars (pre @ [s] @ post) n base (i + 1) ?buf1"
    using single by (intro copy_chars_step [OF _ a b]) simp
  also have "\<dots> = Inr (i + 1, ?buf1)"
    using single by (intro copy_chars_none) simp
  finally show ?case using single c by simp
next
  case (cons s seg)
  let ?buf1 = "take (nat i) buf @ [char_of s, NUL] @ drop (nat i + 2) buf"
  have a: "rd (pre @ (s # seg) @ post) (base + i) = Inr s"
    using cons.prems by (simp add: rd_at)
  have b: "sprintf_at buf i [char_of s] = Inr ?buf1"
    using cons.prems by (intro sprintf_at_char) simp_all
  have len1: "length ?buf1 = length buf" using cons.prems by auto
  have "copy_chars (pre @ (s # seg) @ post) n base i buf
                = copy_chars (pre @ (s # seg) @ post) n base (i + 1) ?buf1"
    using cons.prems by (intro copy_chars_step [OF _ a b]) simp
  then have step: "copy_chars (pre @ (s # seg) @ post) n base i buf
                = copy_chars ((pre @ [s]) @ seg @ post) n base (i + 1) ?buf1"
    by simp
  have ih: "copy_chars ((pre @ [s]) @ seg @ post) n base (i + 1) ?buf1 =
           Inr (n, take (nat (i + 1)) ?buf1 @ map char_of seg @ [NUL] @ drop (nat n + 1) ?buf1)"
    using cons.prems len1 by (intro cons.IH) simp_all
  have t: "take (nat (i + 1)) ?buf1 = take (nat i) buf @ [char_of s]"
    using cons.prems by (simp add: nat_add_distrib)
  have "nat i + 2 \<le> nat n + 1" using cons.prems cons.hyps by (cases seg) auto
  moreover have "nat i \<le> length buf" using cons.prems by simp
  ultimately have d: "drop (nat n + 1) ?buf1 = drop (nat n + 1) buf"
    using drop_patch [of "nat i" "[char_of s, NUL]" "nat n + 1" buf] by simp
  show ?case
    unfolding step ih t d by simp
qed


lemma sprintf_at_0:
  assumes "int (length s) + 1 \<le> int (length buf)"
  shows "sprintf_at buf 0 s = Inr (s @ NUL # drop (length s + 1) buf)"
  using assms by (simp add: sprintf_at_def)

lemma months_length: "k < 12 \<Longrightarrow> length (months ! k) \<le> 9"
proof -
  have "list_all (\<lambda>s. length s \<le> 9) months" by (simp add: months_def)
  moreover have "length months = 12" by (simp add: months_def)
  ultimately show "k < 12 \<Longrightarrow> length (months ! k) \<le> 9"
    by (simp add: list_all_length)
qed

lemma length_cstr: "length (cstr (s @ NUL # rest)) \<le> length s"
  by (simp add: cstr_def takeWhile_append length_takeWhile_le)

lemma copy_chars_field:
  assumes "int (length pre) = base" and "n = int (length seg)" and "n + 1 \<le> int (length buf)"
  shows "copy_chars (pre @ seg @ post) n base 0 buf =
           Inr (n, if seg = [] then buf else map char_of seg @ NUL # drop (length seg + 1) buf)"
proof (cases "seg = []")
  case True
  with assms show ?thesis by (simp add: copy_chars_none)
next
  case False
  from copy_chars_segment [OF False, of pre base 0 n buf post] assms False
  show ?thesis by simp
qed


lemma date_text_length:
  assumes "1 \<le> m" and "m \<le> 12"
  shows "length (date_text raw m) \<le> 12"
proof -
  from assms have "nat (m - 1) < 12" by simp
  from months_length [OF this] show ?thesis by (simp add: date_text_def)
qed

lemma time_text_length: "length (time_text raw) = 14"
  by (simp add: time_text_def)

lemma sprintf_date_time:
  assumes "length d \<le> 12" and "length t = 14" and "length buf = 64"
  shows "\<exists>r. sprintf_at buf 0 (cstr (d @ NUL # a) @ CHR '' '' # cstr (t @ NUL # b)) = Inr r"
proof -
  have "length (cstr (d @ NUL # a)) \<le> 12"
    using length_cstr [of d a] assms by simp
  moreover have "length (cstr (t @ NUL # b)) \<le> 14"
    using length_cstr [of t b] assms by simp
  ultimately show ?thesis
    using assms by (simp add: sprintf_at_def)
qed


lemma get_CID_info_fields:
  assumes raw: "rawdata cid =
      [ty, l, t0, l0, c4, c5, c6, c7, c8, c9, c10, c11, t1, int (length f1)] @ f1 @
      [t2, int (length f2)] @ f2 @ post"
    and t1: "t1 = NAME \<or> t1 = NUM"
    and month: "1 \<le> (c4 - 48) * 10 + (c5 - 48)" "(c4 - 48) * 10 + (c5 - 48) \<le> 12"
    and f1: "length f1 \<le> 19" and f2: "length f2 \<le> 19"
    and bufs: "length (date data) = 20" "length (call_time data) = 20"
      "length (name data) = 20" "length (number data) = 20" "length (date_time cid) = 64"
  shows "\<exists>cid'. get_CID_info cid data =
     Inr (cid',
       \<lparr>date = date_text [ty, l, t0, l0, c4, c5, c6, c7, c8, c9, c10, c11]
                  ((c4 - 48) * 10 + (c5 - 48)) @ NUL #
                 drop (length (date_text [ty, l, t0, l0, c4, c5, c6, c7, c8, c9, c10, c11]
                  ((c4 - 48) * 10 + (c5 - 48))) + 1) (date data),
        call_time = time_text [ty, l, t0, l0, c4, c5, c6, c7, c8, c9, c10, c11] @ NUL #
                 drop (length (time_text [ty, l, t0, l0, c4, c5, c6, c7, c8, c9, c10, c11]) + 1)
                   (call_time data),
        name = (if t1 = NAME
                then (if f1 = [] then name data else map char_of f1 @ NUL # drop (length f1 + 1) (name data))
                else (if f2 = [] then name data else map char_of f2 @ NUL # drop (length f2 + 1) (name data))),
        number = (if t1 = NAME
                then (if f2 = [] then number data else map char_of f2 @ NUL # drop (length f2 + 1) (number data))
                else (if f1 = [] then number data else map char_of f1 @ NUL # drop (length f1 + 1) (number data)))\<rparr>)"
proof -
  let ?hdr = "[ty, l, t0, l0, c4, c5, c6, c7, c8, c9, c10, c11, t1, int (length f1)]"
  let ?raw = "rawdata cid"
  define m where "m = (c4 - 48) * 10 + (c5 - 48)"
  have m: "1 \<le> m" "m \<le> 12" using month by (simp_all add: m_def)
  have dl: "length (date_text ?raw m) \<le> 12" using m by (rule date_text_length)
  have tl: "length (time_text ?raw) = 14" by (rule time_text_length)
  have dsp: "sprintf_at (date data) 0 (date_text ?raw m)
               = Inr (date_text ?raw m @ NUL # drop (length (date_text ?raw m) + 1) (date data))"
    using dl bufs by (intro sprintf_at_0) simp
  have tsp: "sprintf_at (call_time data) 0 (time_text ?raw)
               = Inr (time_text ?raw @ NUL # drop (length (time_text ?raw ) + 1) (call_time data))"
    using tl bufs by (intro sprintf_at_0) simp
  have c1: "copy_chars ?raw (int (length f1)) 14 0 buf =
           Inr (int (length f1), if f1 = [] then buf else map char_of f1 @ NUL # drop (length f1 + 1) buf)"
    if "length buf = 20" for buf
  proof -
    have "copy_chars (?hdr @ f1 @ ([t2, int (length f2)] @ f2 @ post)) (int (length f1)) 14 0 buf =
           Inr (int (length f1), if f1 = [] then buf else map char_of f1 @ NUL # drop (length f1 + 1) buf)"
      using f1 that by (intro copy_chars_field) simp_all
    then show ?thesis unfolding raw by simp
  qed
  have r2: "rd ?raw (15 + int (length f1)) = Inr (int (length f2))"
  proof -
    have "rd ((?hdr @ f1 @ [t2]) @ int (length f2) # (f2 @ post)) (15 + int (length f1)) = Inr (int (length f2))"
      by (intro rd_at) simp
    then show ?thesis unfolding raw by simp
  qed
  have c2: "copy_chars ?raw (int (length f2)) (16 + int (length f1)) 0 buf =
           Inr (int (length f2), if f2 = [] then buf else map char_of f2 @ NUL # drop (length f2 + 1) buf)"
    if "length buf = 20" for buf
  proof -
    have "copy_chars ((?hdr @ f1 @ [t2, int (length f2)]) @ f2 @ post) (int (length f2)) (16 + int (length f1)) 0 buf =
           Inr (int (length f2), if f2 = [] then buf else map char_of f2 @ NUL # drop (length f2 + 1) buf)"
      using f2 that by (intro copy_chars_field) simp_all
    then show ?thesis unfolding raw by simp
  qed
  have gm: "(?raw ! 4 - 48) * 10 + (?raw ! 5 - 48) = m"
    unfolding raw m_def by simp
  have reads: "?raw ! 12 = t1" "?raw ! 13 = int (length f1)"
    unfolding raw by simp_all
  have texts: "date_text [ty, l, t0, l0, c4, c5, c6, c7, c8, c9, c10, c11] m = date_text ?raw m"
    "time_text [ty, l, t0, l0, c4, c5, c6, c7, c8, c9, c10, c11] = time_text ?raw"
    unfolding raw date_text_def time_text_def by simp_all
  have lm: "int (length months) = 12" by (simp add: months_def)
  obtain r where dts: "sprintf_at (date_time cid) 0
           (cstr (date_text ?raw m @ NUL # drop (length (date_text ?raw m) + 1) (date data)) @ CHR '' '' #
            cstr (time_text ?raw @ NUL # drop (length (time_text ?raw ) + 1) (call_time data))) = Inr r"
    using sprintf_date_time [OF dl tl bufs(5)] by blast
  have len1: "length (if f = [] then buf else map char_of f @ NUL # drop (length f + 1) buf) = 20"
    if "length buf = 20" "length f \<le> 19" for f :: "int list" and buf
    using that by auto
  from t1 show ?thesis
  proof
    assume "t1 = NAME"
    then show ?thesis
      unfolding get_CID_info_def Let_def gm reads m_def [symmetric] texts
      using m bufs
      by (simp add: lm dsp tsp c1 c2 r2 dts del: One_nat_def)
  next
    assume "t1 = NUM"
    then show ?thesis
      unfolding get_CID_info_def Let_def gm reads m_def [symmetric] texts
      using m bufs
      by (simp add: lm dsp tsp c1 c2 r2 dts del: One_nat_def)
  qed
qed

lemma copy_chars_bounds:
  assumes "length buf = 20" and "0 \<le> i" and "i \<le> 19" and "0 \<le> base"
    and "base + 19 < int (length raw)"
  shows "if n \<le> 19
         then (\<exists>buf'. copy_chars raw n base i buf = Inr (max i n, buf') \<and> length buf' = 20)
         else copy_chars raw n base i buf = Inl (Field_Overflow 21)"
  using assms
proof (induction "nat (19 - i)" arbitrary: i buf)
  case 0
  then have i: "i = 19" by simp
  show ?case
  proof (cases "n \<le> 19")
    case True
    with i 0 show ?thesis by (simp add: copy_chars_none)
  next
    case False
    with i 0 show ?thesis
      by (subst copy_chars.simps) (simp add: rd_def sprintf_at_def)
  qed
next
  case (Suc k)
  then have i: "i \<le> 18" by simp
  show ?case
  proof (cases "i < n")
    case False
    with Suc.prems show ?thesis by (simp add: copy_chars_none max_def)
  next
    case True
    let ?c = "raw ! nat (base + i)"
    let ?buf1 = "take (nat i) buf @ [char_of ?c, NUL] @ drop (nat i + 2) buf"
    have a: "rd raw (base + i) = Inr ?c" using Suc.prems by (simp add: rd_def)
    have b: "sprintf_at buf i [char_of ?c] = Inr ?buf1"
      using Suc.prems i by (intro sprintf_at_char) simp_all
    have len1: "length ?buf1 = 20" using Suc.prems i by auto
    have step: "copy_chars raw n base i buf = copy_chars raw n base (i + 1) ?buf1"
      using True a b by (rule copy_chars_step)
    have "k = nat (19 - (i + 1))" using Suc.hyps(2) by simp
    from Suc.hyps(1) [OF this len1] Suc.prems i
    have "if n \<le> 19
         then (\<exists>buf'. copy_chars raw n base (i + 1) ?buf1 = Inr (max (i + 1) n, buf') \<and> length buf' = 20)
         else copy_chars raw n base (i + 1) ?buf1 = Inl (Field_Overflow 21)"
      by simp
    with True show ?thesis unfolding step by (cases "n \<le> 19") (auto simp: max_def)
  qed
qed


lemma copy_two_fields:
  assumes "length b1 = 20" and "length b2 = 20" and "length raw = 256"
  shows "(\<exists>r. (case copy_chars raw (raw ! 13) 14 0 b1 of
               Inl f \<Rightarrow> Inl f
             | Inr (i, x) \<Rightarrow>
                 (case rd raw (15 + i) of
                    Inl f \<Rightarrow> Inl f
                  | Inr n \<Rightarrow>
                      (case copy_chars raw n (16 + i) 0 b2 of
                         Inl f \<Rightarrow> Inl f
                       | Inr (j, y) \<Rightarrow> Inr (g x y)))) = Inr r)
         \<longleftrightarrow> raw ! 13 \<le> 19 \<and> raw ! nat (15 + max 0 (raw ! 13)) \<le> 19"
proof (cases "raw ! 13 \<le> 19")
  case False
  with copy_chars_bounds [of b1 0 14 raw "raw ! 13"] assms
  have "copy_chars raw (raw ! 13) 14 0 b1 = Inl (Field_Overflow 21)" by simp
  with False show ?thesis by simp
next
  case True
  with copy_chars_bounds [of b1 0 14 raw "raw ! 13"] assms
  obtain x where c1: "copy_chars raw (raw ! 13) 14 0 b1 = Inr (max 0 (raw ! 13), x)"
    by auto
  let ?i = "max 0 (raw ! 13)"
  have i: "0 \<le> ?i" "?i \<le> 19" using True by simp_all
  have r: "rd raw (15 + ?i) = Inr (raw ! nat (15 + ?i))"
    using i assms by (simp add: rd_def)
  let ?n = "raw ! nat (15 + ?i)"
  show ?thesis
  proof (cases "?n \<le> 19")
    case False
    with copy_chars_bounds [of b2 0 "16 + ?i" raw ?n] assms i
    have "copy_chars raw ?n (16 + ?i) 0 b2 = Inl (Field_Overflow 21)" by simp
    with False True c1 r show ?thesis by simp
  next
    case n: True
    with copy_chars_bounds [of b2 0 "16 + ?i" raw ?n] assms i
    obtain y where "copy_chars raw ?n (16 + ?i) 0 b2 = Inr (max 0 ?n, y)" by auto
    with n True c1 r show ?thesis by simp
  qed
qed

text \<open>
  C6, as the code has it: \<^verbatim>\<open>get_CID_info\<close> validates nothing and has no error
  result. It indexes \<^verbatim>\<open>months\<close> with the month of bytes 4 and 5 and copies as many
  characters as the length bytes say. It stays inside its arrays exactly when that
  month is 1 to 12 and, where byte 12 is the marker of a name or a number, the length
  byte at offset 13 and the one after the first field are at most 19; otherwise it
  reads or writes outside an array.
\<close>

theorem C6_extraction_unchecked:
  assumes "length (rawdata cid) = 256"
    and "length (date data) = 20" and "length (call_time data) = 20"
    and "length (name data) = 20" and "length (number data) = 20"
    and "length (date_time cid) = 64"
  shows "(\<exists>r. get_CID_info cid data = Inr r) \<longleftrightarrow>
           1 \<le> (rawdata cid ! 4 - 48) * 10 + (rawdata cid ! 5 - 48)
         \<and> (rawdata cid ! 4 - 48) * 10 + (rawdata cid ! 5 - 48) \<le> 12
         \<and> (rawdata cid ! 12 = NAME \<or> rawdata cid ! 12 = NUM \<longrightarrow>
              rawdata cid ! 13 \<le> 19
              \<and> rawdata cid ! nat (15 + max 0 (rawdata cid ! 13)) \<le> 19)"
proof -
  let ?raw = "rawdata cid"
  define m where "m = (?raw ! 4 - 48) * 10 + (?raw ! 5 - 48)"
  have lm: "int (length months) = 12" by (simp add: months_def)
  show ?thesis
  proof (cases "1 \<le> m \<and> m \<le> 12")
    case False
    then show ?thesis
      unfolding get_CID_info_def Let_def m_def [symmetric] by (auto simp: lm)
  next
    case True
    then have m: "1 \<le> m" "m \<le> 12" by simp_all
    have dl: "length (date_text ?raw m) \<le> 12" using m by (rule date_text_length)
    have tl: "length (time_text ?raw) = 14" by (rule time_text_length)
    have dsp: "sprintf_at (date data) 0 (date_text ?raw m)
               = Inr (date_text ?raw m @ NUL # drop (length (date_text ?raw m) + 1) (date data))"
      using dl assms by (intro sprintf_at_0) simp
    have tsp: "sprintf_at (call_time data) 0 (time_text ?raw)
               = Inr (time_text ?raw @ NUL # drop (length (time_text ?raw ) + 1) (call_time data))"
      using tl assms by (intro sprintf_at_0) simp
    obtain r where dts: "sprintf_at (date_time cid) 0
           (cstr (date_text ?raw m @ NUL # drop (Suc (length (date_text ?raw m))) (date data)) @ CHR '' '' #
            cstr (time_text ?raw @ NUL # drop (Suc (length (time_text ?raw))) (call_time data))) = Inr r"
      using sprintf_date_time [OF dl tl assms(6)] by blast
    define F where "F = (if ?raw ! 12 = NAME then
                    (case copy_chars ?raw (?raw ! 13) 14 0 (name data) of
                       Inl f \<Rightarrow> Inl f
                     | Inr (i, name') \<Rightarrow>
                         (case rd ?raw (15 + i) of
                            Inl f \<Rightarrow> Inl f
                          | Inr n \<Rightarrow>
                              (case copy_chars ?raw n (16 + i) 0 (number data) of
                                 Inl f \<Rightarrow> Inl f
                               | Inr (j, number') \<Rightarrow> Inr (name', number'))))
                  else if ?raw ! 12 = NUM then
                    (case copy_chars ?raw (?raw ! 13) 14 0 (number data) of
                       Inl f \<Rightarrow> Inl f
                     | Inr (j, number') \<Rightarrow>
                         (case rd ?raw (15 + j) of
                            Inl f \<Rightarrow> Inl f
                          | Inr n \<Rightarrow>
                              (case copy_chars ?raw n (16 + j) 0 (name data) of
                                 Inl f \<Rightarrow> Inl f
                               | Inr (i, name') \<Rightarrow> Inr (name', number'))))
                  else Inr (name data, number data))"
    have F: "(\<exists>r. F = Inr r) \<longleftrightarrow>
              (?raw ! 12 = NAME \<or> ?raw ! 12 = NUM \<longrightarrow>
                 ?raw ! 13 \<le> 19 \<and> ?raw ! nat (15 + max 0 (?raw ! 13)) \<le> 19)"
      unfolding F_def
      using copy_two_fields [of "name data" "number data" ?raw "\<lambda>x y. (x, y)"]
            copy_two_fields [of "number data" "name data" ?raw "\<lambda>x y. (y, x)"] assms
      by auto
    have G: "(\<exists>r. get_CID_info cid data = Inr r) \<longleftrightarrow> (\<exists>r. F = Inr r)"
      unfolding get_CID_info_def Let_def m_def [symmetric] F_def [symmetric]
      using m by (cases F) (auto simp: lm dsp tsp dts)
    show ?thesis
      unfolding G F m_def [symmetric] using True by simp
  qed
qed

theorem C6_extraction_unchecked_witness:
  "\<exists>r. get_CID_info received_example blank_data = Inr r"
  using C6_extraction_unchecked [of received_example blank_data]
  by (simp add: received_example_def blank_data_def calloc_cid_def)

text \<open>
  C6, as the claim states it, fails. Both messages pass the checksum, so their buffers
  are complete. The first has the month digits 13: \<^verbatim>\<open>get_CID_info\<close> reads
  \<^verbatim>\<open>months[12]\<close>, past the end of the table. The second has a name of 20
  characters: the loop writes the terminating NUL of the 20th at \<^verbatim>\<open>data->name[20]\<close>,
  past the end of the field. Neither is reported as an error.
\<close>

theorem C6_counterexample:
  "decode_outcome (decode_bytes (calloc_cid fskd_example) statics_at_start
     [0x80, 0x13, 0x01, 0x08, 49, 51, 48, 53, 49, 52, 51, 50, 0x07, 0x02, 65, 66,
      0x02, 0x03, 53, 53, 53, 0xA1]) =
   Inr (1, ''Checksum Passed!!'', CHECKSUM, 863,
        \<lparr>name_field = 0, number_field = 0, msg_type = MDMF, msg_off = 0, data_field = 0\<rparr>, [])
   \<and> decode_spill (calloc_cid fskd_example) statics_at_start
     [0x80, 0x13, 0x01, 0x08, 49, 51, 48, 53, 49, 52, 51, 50, 0x07, 0x02, 65, 66,
      0x02, 0x03, 53, 53, 53, 0xA1] blank_data = Inl (Months_Index 12)
   \<and> decode_outcome (decode_bytes (calloc_cid fskd_example) statics_at_start
       (cid_msg MDMF 0x25
          [(DATE_TIME, [48, 49, 48, 53, 49, 52, 51, 50]),
           (NAME, [65, 65, 65, 65, 65, 65, 65, 65, 65, 65, 65, 65, 65, 65, 65, 65, 65, 65, 65, 65]),
           (NUM, [53, 53, 53])])) =
     Inr (1, ''Checksum Passed!!'', CHECKSUM, 2065,
        \<lparr>name_field = 0, number_field = 0, msg_type = MDMF, msg_off = 0, data_field = 0\<rparr>, [])
   \<and> decode_spill (calloc_cid fskd_example) statics_at_start
       (cid_msg MDMF 0x25
          [(DATE_TIME, [48, 49, 48, 53, 49, 52, 51, 50]),
           (NAME, [65, 65, 65, 65, 65, 65, 65, 65, 65, 65, 65, 65, 65, 65, 65, 65, 65, 65, 65, 65]),
           (NUM, [53, 53, 53])]) blank_data = Inl (Field_Overflow 21)"
  by (simp add: cid_msg_def cid_frame_def cid_field_def cid_checksum_def
        decode_CID_msg_def calloc_cid_def statics_at_start_def decode_outcome_def
        decode_spill_def get_CID_info_def blank_data_def months_def
        sprintf_at_def rd_def copy_chars.simps date_text_def time_text_def)

lemma decode_two_fields:
  assumes st: "name_field st = 0" "number_field st = 0" "msg_off st = 0"
    and cid: "sawflag cid = 0" "length (rawdata cid) = 256" "cksum cid = 0"
    and t: "(t1 = NAME \<and> t2 = NUM) \<or> (t1 = NUM \<and> t2 = NAME)"
    and f1: "f1 \<noteq> []" "length f1 \<le> 19" and f2: "f2 \<noteq> []" "length f2 \<le> 19"
  shows "\<exists>cid'. decode_bytes cid st
           ([MDMF, l, DATE_TIME, 8, c4, c5, c6, c7, c8, c9, c10, c11, t1, int (length f1)] @ f1 @
            [t2, int (length f2)] @ f2 @ [ck]) =
         Inr (1, if ck = 256 - (MDMF + l + DATE_TIME + 8 + c4 + c5 + c6 + c7 + c8 + c9 + c10 + c11
                     + NAME + NUM + int (length f1) + sum_list f1 + int (length f2) + sum_list f2) mod 256
                 then ''Checksum Passed!!'' else ''Checksum Failed!!'',
              cid',
              st\<lparr>name_field := 0, number_field := 0, msg_type := MDMF, msg_off := 0, data_field := 0\<rparr>, [])"
  using t
proof
  assume "t1 = NAME \<and> t2 = NUM"
  with st cid f1 f2 show ?thesis
    by (simp add: decode_CID_msg_def Let_def decode_bytes_data_field and_255_mod algebra_simps)
next
  assume "t1 = NUM \<and> t2 = NAME"
  with st cid f1 f2 show ?thesis
    by (simp add: decode_CID_msg_def Let_def decode_bytes_data_field and_255_mod algebra_simps)
qed


lemma spill_of_fields:
  assumes dec: "decode_bytes (calloc_cid fd) st msg = Inr (1, out, cid', st', [])"
    and off: "msg_off st = 0" and len: "length msg \<le> 256"
    and shape: "msg @ replicate (256 - length msg) 0 =
      [ty, l, t0, l0, c4, c5, c6, c7, c8, c9, c10, c11, t1, int (length f1)] @ f1 @
      [t2, int (length f2)] @ f2 @ post"
    and t1: "t1 = NAME \<or> t1 = NUM"
    and month: "1 \<le> (c4 - 48) * 10 + (c5 - 48)" "(c4 - 48) * 10 + (c5 - 48) \<le> 12"
    and f1: "length f1 \<le> 19" and f2: "length f2 \<le> 19"
    and bufs: "length (date data) = 20" "length (call_time data) = 20"
      "length (name data) = 20" "length (number data) = 20"
  shows "decode_spill (calloc_cid fd) st msg data =
     Inr (1, out, st', Some
       \<lparr>date = date_text [ty, l, t0, l0, c4, c5, c6, c7, c8, c9, c10, c11]
                  ((c4 - 48) * 10 + (c5 - 48)) @ NUL #
                 drop (length (date_text [ty, l, t0, l0, c4, c5, c6, c7, c8, c9, c10, c11]
                  ((c4 - 48) * 10 + (c5 - 48))) + 1) (date data),
        call_time = time_text [ty, l, t0, l0, c4, c5, c6, c7, c8, c9, c10, c11] @ NUL #
                 drop (length (time_text [ty, l, t0, l0, c4, c5, c6, c7, c8, c9, c10, c11]) + 1)
                   (call_time data),
        name = (if t1 = NAME
                then (if f1 = [] then name data else map char_of f1 @ NUL # drop (length f1 + 1) (name data))
                else (if f2 = [] then name data else map char_of f2 @ NUL # drop (length f2 + 1) (name data))),
        number = (if t1 = NAME
                then (if f2 = [] then number data else map char_of f2 @ NUL # drop (length f2 + 1) (number data))
                else (if f1 = [] then number data else map char_of f1 @ NUL # drop (length f1 + 1) (number data)))\<rparr>)"
proof -
  have r0: "rawdata (calloc_cid fd) = [] @ replicate 256 0" by (simp add: calloc_cid_def)
  have "msg_off st = int (length ([] :: int list))" using off by simp
  from decode_bytes_rawdata [OF dec r0 this len]
  have raw: "rawdata cid' = msg @ replicate (256 - length msg) 0"
    and dt: "date_time cid' = date_time (calloc_cid fd)" by simp_all
  have "length (date_time cid') = 64" by (simp add: dt calloc_cid_def)
  from get_CID_info_fields [OF raw [unfolded shape] t1 month f1 f2 bufs this]
  obtain cid'' where "get_CID_info cid' data =
     Inr (cid'',
       \<lparr>date = date_text [ty, l, t0, l0, c4, c5, c6, c7, c8, c9, c10, c11]
                  ((c4 - 48) * 10 + (c5 - 48)) @ NUL #
                 drop (length (date_text [ty, l, t0, l0, c4, c5, c6, c7, c8, c9, c10, c11]
                  ((c4 - 48) * 10 + (c5 - 48))) + 1) (date data),
        call_time = time_text [ty, l, t0, l0, c4, c5, c6, c7, c8, c9, c10, c11] @ NUL #
                 drop (length (time_text [ty, l, t0, l0, c4, c5, c6, c7, c8, c9, c10, c11]) + 1)
                   (call_time data),
        name = (if t1 = NAME
                then (if f1 = [] then name data else map char_of f1 @ NUL # drop (length f1 + 1) (name data))
                else (if f2 = [] then name data else map char_of f2 @ NUL # drop (length f2 + 1) (name data))),
        number = (if t1 = NAME
                then (if f2 = [] then number data else map char_of f2 @ NUL # drop (length f2 + 1) (number data))
                else (if f1 = [] then number data else map char_of f1 @ NUL # drop (length f1 + 1) (number data)))\<rparr>)"
    by blast
  with dec show ?thesis by (simp add: decode_spill_def)
qed

text \<open>
  With the statics clear (\<^verbatim>\<open>name_field\<close>, \<^verbatim>\<open>number_field\<close> and \<^verbatim>\<open>msg_off\<close> zero,
  as at program start) the order of the name and the number does not matter: for an
  MDMF message with date and time, a name and a number (each of 1 to 19 bytes, the
  month 01 to 12), decoded in a new session, decoding and extraction give the same
  result whether the name or the number comes first: the same return value, printed
  line and statics, and the same record, with the name and the number as sent.
\<close>

lemma field_order_clear_statics:
  assumes st: "name_field st = 0" "number_field st = 0" "msg_off st = 0"
    and nm: "nm \<noteq> []" "length nm \<le> 19" and nu: "nu \<noteq> []" "length nu \<le> 19"
    and month: "1 \<le> (m1 - 48) * 10 + (m2 - 48)" "(m1 - 48) * 10 + (m2 - 48) \<le> 12"
    and bufs: "length (date data) = 20" "length (call_time data) = 20"
      "length (name data) = 20" "length (number data) = 20"
  shows "decode_spill (calloc_cid fd) st
           (cid_msg MDMF l [(DATE_TIME, [m1, m2, d1, d2, h1, h2, n1, n2]), (NAME, nm), (NUM, nu)]) data
       = decode_spill (calloc_cid fd) st
           (cid_msg MDMF l [(DATE_TIME, [m1, m2, d1, d2, h1, h2, n1, n2]), (NUM, nu), (NAME, nm)]) data
     \<and> (\<exists>out st' d. decode_spill (calloc_cid fd) st
           (cid_msg MDMF l [(DATE_TIME, [m1, m2, d1, d2, h1, h2, n1, n2]), (NAME, nm), (NUM, nu)]) data
             = Inr (1, out, st', Some d)
           \<and> name d = map char_of nm @ NUL # drop (length nm + 1) (name data)
           \<and> number d = map char_of nu @ NUL # drop (length nu + 1) (number data))"
proof -
  let ?A = "cid_msg MDMF l [(DATE_TIME, [m1, m2, d1, d2, h1, h2, n1, n2]), (NAME, nm), (NUM, nu)]"
  let ?B = "cid_msg MDMF l [(DATE_TIME, [m1, m2, d1, d2, h1, h2, n1, n2]), (NUM, nu), (NAME, nm)]"
  define ck where "ck = cid_checksum
    (cid_frame MDMF l [(DATE_TIME, [m1, m2, d1, d2, h1, h2, n1, n2]), (NAME, nm), (NUM, nu)])"
  have ckB: "cid_checksum
    (cid_frame MDMF l [(DATE_TIME, [m1, m2, d1, d2, h1, h2, n1, n2]), (NUM, nu), (NAME, nm)]) = ck"
    by (simp add: ck_def cid_checksum_def cid_frame_def cid_field_def algebra_simps)
  have A: "?A = [MDMF, l, DATE_TIME, 8, m1, m2, d1, d2, h1, h2, n1, n2, NAME, int (length nm)] @ nm @
            [NUM, int (length nu)] @ nu @ [ck]"
    by (simp add: cid_msg_def cid_frame_def cid_field_def ck_def)
  have B: "?B = [MDMF, l, DATE_TIME, 8, m1, m2, d1, d2, h1, h2, n1, n2, NUM, int (length nu)] @ nu @
            [NAME, int (length nm)] @ nm @ [ck]"
    unfolding cid_msg_def ckB by (simp add: cid_frame_def cid_field_def)
  have c0: "sawflag (calloc_cid fd) = 0" "length (rawdata (calloc_cid fd)) = 256"
    "cksum (calloc_cid fd) = 0"
    by (simp_all add: calloc_cid_def)
  define out where "out = (if ck = 256 - (MDMF + l + DATE_TIME + 8 + m1 + m2 + d1 + d2 + h1 + h2 + n1 + n2
                     + NAME + NUM + int (length nm) + sum_list nm + int (length nu) + sum_list nu) mod 256
                 then ''Checksum Passed!!'' else ''Checksum Failed!!'')"
  define st' where "st' = st\<lparr>name_field := 0, number_field := 0, msg_type := MDMF, msg_off := 0, data_field := 0\<rparr>"
  from decode_two_fields [OF st c0 _ nm nu, of NAME NUM l m1 m2 d1 d2 h1 h2 n1 n2 ck]
  obtain cA where dA: "decode_bytes (calloc_cid fd) st ?A = Inr (1, out, cA, st', [])"
    unfolding A out_def st'_def by auto
  from decode_two_fields [OF st c0 _ nu nm, of NUM NAME l m1 m2 d1 d2 h1 h2 n1 n2 ck]
  obtain cB where dB: "decode_bytes (calloc_cid fd) st ?B = Inr (1, out, cB, st', [])"
    unfolding B out_def st'_def by (auto simp: algebra_simps)
  have lA: "length ?A \<le> 256" and lB: "length ?B \<le> 256"
    using nm nu by (simp_all add: A B)
  have sA: "?A @ replicate (256 - length ?A) 0 =
      [MDMF, l, DATE_TIME, 8, m1, m2, d1, d2, h1, h2, n1, n2, NAME, int (length nm)] @ nm @
      [NUM, int (length nu)] @ nu @ (ck # replicate (256 - length ?A) 0)"
    by (simp add: A)
  have sB: "?B @ replicate (256 - length ?B) 0 =
      [MDMF, l, DATE_TIME, 8, m1, m2, d1, d2, h1, h2, n1, n2, NUM, int (length nu)] @ nu @
      [NAME, int (length nm)] @ nm @ (ck # replicate (256 - length ?B) 0)"
    by (simp add: B)
  note rA = spill_of_fields [OF dA st(3) lA sA _ month _ _ bufs]
  note rB = spill_of_fields [OF dB st(3) lB sB _ month _ _ bufs]
  show ?thesis
    using rA rB nm nu by simp
qed

lemma field_order_clear_statics_example:
  "decode_spill (calloc_cid fskd_example) statics_at_start
     (cid_msg MDMF 0x13 [(DATE_TIME, [48, 49, 48, 53, 49, 52, 51, 50]), (NAME, [65, 66]),
                          (NUM, [53, 53, 53])]) blank_data
   = decode_spill (calloc_cid fskd_example) statics_at_start
     (cid_msg MDMF 0x13 [(DATE_TIME, [48, 49, 48, 53, 49, 52, 51, 50]), (NUM, [53, 53, 53]),
                          (NAME, [65, 66])]) blank_data
   \<and> spill_result (decode_spill (calloc_cid fskd_example) statics_at_start
     (cid_msg MDMF 0x13 [(DATE_TIME, [48, 49, 48, 53, 49, 52, 51, 50]), (NUM, [53, 53, 53]),
                          (NAME, [65, 66])]) blank_data)
     = Inr (1, ''Checksum Passed!!'', Some (''January 05'', ''14 hr : 32 min'', ''AB'', ''555''))"
proof -
  have "spill_result (decode_spill (calloc_cid fskd_example) statics_at_start
     (cid_msg MDMF 0x13 [(DATE_TIME, [48, 49, 48, 53, 49, 52, 51, 50]), (NUM, [53, 53, 53]),
                          (NAME, [65, 66])]) blank_data)
     = Inr (1, ''Checksum Passed!!'', Some (''January 05'', ''14 hr : 32 min'', ''AB'', ''555''))"
    by (simp add: cid_msg_def cid_frame_def cid_field_def cid_checksum_def
        decode_CID_msg_def calloc_cid_def statics_at_start_def spill_result_def
        decode_spill_def get_CID_info_def blank_data_def record_strings_def cstr_def months_def
        sprintf_at_def rd_def copy_chars.simps char_of_def date_text_def time_text_def)
  moreover have "decode_spill (calloc_cid fskd_example) statics_at_start
     (cid_msg MDMF 0x13 [(DATE_TIME, [48, 49, 48, 53, 49, 52, 51, 50]), (NAME, [65, 66]),
                          (NUM, [53, 53, 53])]) blank_data
   = decode_spill (calloc_cid fskd_example) statics_at_start
     (cid_msg MDMF 0x13 [(DATE_TIME, [48, 49, 48, 53, 49, 52, 51, 50]), (NUM, [53, 53, 53]),
                          (NAME, [65, 66])]) blank_data"
    using field_order_clear_statics [where st = statics_at_start and nm = "[65, 66]" and nu = "[53, 53, 53]"
        and ?m1.0 = 48 and ?m2.0 = 49 and data = blank_data and fd = fskd_example and l = "0x13"
        and ?d1.0 = 48 and ?d2.0 = 53 and ?h1.0 = 49 and ?h2.0 = 52 and ?n1.0 = 51 and ?n2.0 = 50]
    by (simp add: statics_at_start_def blank_data_def)
  ultimately show ?thesis by simp
qed

text \<open>
  C8: the order of the name and the number matters after a session that left
  \<^verbatim>\<open>name_field\<close> set. A first session with an SDMF message of date and time, name and
  number ends with the checksum passed and the full record; on its way to the checksum
  the SDMF path clears \<^verbatim>\<open>number_field\<close> only, so \<^verbatim>\<open>name_field\<close> stays 1. In the
  next, new session the MDMF message with the name before the number passes with the
  name and the number, and the same fields with the number before the name are taken
  for complete after the number: the marker 0x07 of the name is compared as the
  checksum, which fails, and the record has no name.
\<close>

theorem C8_field_order_after_sdmf_session:
  "decode_outcome (decode_bytes (calloc_cid fskd_example) statics_at_start
     (cid_msg SDMF 0x13 [(DATE_TIME, [48, 49, 48, 53, 49, 52, 51, 50]), (NAME, [65, 66]),
                          (NUM, [53, 53, 53])])) =
   Inr (1, ''Checksum Passed!!'', CHECKSUM, 736,
        \<lparr>name_field = 1, number_field = 0, msg_type = SDMF, msg_off = 0, data_field = 0\<rparr>, [])
   \<and> spill_result (decode_spill (calloc_cid fskd_example) statics_at_start
     (cid_msg SDMF 0x13 [(DATE_TIME, [48, 49, 48, 53, 49, 52, 51, 50]), (NAME, [65, 66]),
                          (NUM, [53, 53, 53])]) blank_data) =
     Inr (1, ''Checksum Passed!!'', Some (''January 05'', ''14 hr : 32 min'', ''AB'', ''555''))
   \<and> spill_result (decode_spill (calloc_cid fskd_example)
        \<lparr>name_field = 1, number_field = 0, msg_type = SDMF, msg_off = 0, data_field = 0\<rparr>
        (cid_msg MDMF 0x13 [(DATE_TIME, [48, 49, 48, 53, 49, 52, 51, 50]), (NAME, [65, 66]),
                             (NUM, [53, 53, 53])]) blank_data) =
     Inr (1, ''Checksum Passed!!'', Some (''January 05'', ''14 hr : 32 min'', ''AB'', ''555''))
   \<and> spill_result (decode_spill (calloc_cid fskd_example)
        \<lparr>name_field = 1, number_field = 0, msg_type = SDMF, msg_off = 0, data_field = 0\<rparr>
        (cid_msg MDMF 0x13 [(DATE_TIME, [48, 49, 48, 53, 49, 52, 51, 50]), (NUM, [53, 53, 53]),
                             (NAME, [65, 66])]) blank_data) =
     Inr (1, ''Checksum Failed!!'', Some (''January 05'', ''14 hr : 32 min'', [], ''555''))"
  by (simp add: cid_msg_def cid_frame_def cid_field_def cid_checksum_def
        decode_CID_msg_def calloc_cid_def statics_at_start_def spill_result_def
        decode_spill_def get_CID_info_def blank_data_def record_strings_def cstr_def months_def
        sprintf_at_def rd_def copy_chars.simps char_of_def date_text_def time_text_def
        decode_outcome_def)

lemma char_of_not_NUL:
  assumes "0 < x" and "x < 256"
  shows "char_of (x::int) \<noteq> NUL"
proof -
  have "take_bit 8 x = x" using assms by (simp add: take_bit_int_eq_self)
  with assms show ?thesis by (simp add: char_of_eq_iff)
qed

lemma cstr_field:
  fixes f :: "int list"
  assumes "\<forall>x\<in>set f. 0 < x \<and> x < 256"
  shows "cstr (map char_of f @ NUL # rest) = map char_of f"
proof -
  have "takeWhile (\<lambda>c. c \<noteq> NUL) (map char_of f @ NUL # rest)
          = map char_of f @ takeWhile (\<lambda>c. c \<noteq> NUL) (NUL # rest)"
    using assms by (intro takeWhile_append2) (auto simp: char_of_not_NUL)
  then show ?thesis by (simp add: cstr_def)
qed

lemma decode_date_number:
  assumes st: "number_field st = 0" "msg_off st = 0"
    and cid: "sawflag cid = 0" "length (rawdata cid) = 256" "cksum cid = 0"
    and f1: "f1 \<noteq> []" "length f1 \<le> 19"
  shows "\<exists>cid'. decode_bytes cid st
           ([SDMF, l, DATE_TIME, 8, c4, c5, c6, c7, c8, c9, c10, c11, NUM, int (length f1)] @ f1 @ [ck]) =
         Inr (1, if ck = 256 - (SDMF + l + DATE_TIME + 8 + c4 + c5 + c6 + c7 + c8 + c9 + c10 + c11
                     + NUM + int (length f1) + sum_list f1) mod 256
                 then ''Checksum Passed!!'' else ''Checksum Failed!!'',
              cid',
              st\<lparr>number_field := 0, msg_type := SDMF, msg_off := 0, data_field := 0\<rparr>, [])"
  using assms
  by (simp add: decode_CID_msg_def Let_def decode_bytes_data_field and_255_mod algebra_simps)

text \<open>
  A session that ends at a checksum byte leaves the statics with \<^verbatim>\<open>msg_off\<close> 0 and
  \<^verbatim>\<open>number_field\<close> 0, as they are at program start. (A session that ends with
  \<^verbatim>\<open>-1\<close> leaves \<^verbatim>\<open>msg_off\<close> where it is.)
\<close>

lemma decode_CID_msg_complete:
  assumes "decode_CID_msg cid st a = Inr (r, out, cid', st')"
    and "sawflag cid = CHECKSUM \<longrightarrow> number_field st = 0"
  shows "(sawflag cid' = CHECKSUM \<longrightarrow> number_field st' = 0)
       \<and> (r = 1 \<longrightarrow> msg_off st' = 0 \<and> number_field st' = 0)"
  using assms unfolding decode_CID_msg_def Let_def
  by (simp split: if_splits) auto

lemma decode_bytes_complete:
  assumes "decode_bytes cid st bs = Inr (1, out, cid', st', rest)"
    and "sawflag cid = CHECKSUM \<longrightarrow> number_field st = 0"
  shows "msg_off st' = 0 \<and> number_field st' = 0"
  using assms
proof (induction bs arbitrary: cid st)
  case Nil
  then show ?case by simp
next
  case (Cons b bs)
  show ?case
  proof (cases "decode_CID_msg cid st b")
    case (Inl f)
    with Cons.prems show ?thesis by simp
  next
    case (Inr t)
    then obtain r o1 c1 s1 where d: "decode_CID_msg cid st b = Inr (r, o1, c1, s1)"
      by (cases t) auto
    note step = decode_CID_msg_complete [OF d Cons.prems(2)]
    show ?thesis
    proof (cases "r = 0")
      case True
      with Cons.prems d have "decode_bytes c1 s1 bs = Inr (1, out, cid', st', rest)" by simp
      from Cons.IH [OF this] step show ?thesis by simp
    next
      case False
      have "r = 1" using d unfolding decode_CID_msg_def Let_def
        using Cons.prems(1) d False by (auto split: if_splits)
      with Cons.prems d step show ?thesis by (auto split: if_splits)
    qed
  qed
qed

lemma new_session_complete:
  assumes "decode_bytes (calloc_cid fd) st bs = Inr (1, out, cid', st', rest)"
  shows "msg_off st' = 0 \<and> number_field st' = 0"
  using decode_bytes_complete [OF assms] by (simp add: calloc_cid_def)

text \<open>
  C3, as the code has it: the statics of \<^verbatim>\<open>decode_CID_msg\<close> outlive the session, the
  bytes are stored from \<^verbatim>\<open>msg_off\<close> on, and the extraction reads the date and time
  at the fixed offsets 4 to 11 and the first marker at offset 12. Take a new session
  that the statics enter with \<^verbatim>\<open>msg_off\<close> 0 and \<^verbatim>\<open>number_field\<close> 0, and a record of
  four fields of 20 characters. For an SDMF message that carries the date and time
  field first (month 01 to 12) and then a number of 1 to 19 bytes from 1 to 255, with
  the checksum byte of the specification and a sum of the preceding bytes that is not
  a multiple of 256, decoding ends with the checksum passed and the number extracted
  is the digits sent; the name field is left as the caller passed it.
\<close>

theorem C3_sdmf_number_after_date:
  assumes st: "number_field st = 0" "msg_off st = 0"
    and digits: "digits \<noteq> []" "length digits \<le> 19" "\<forall>x\<in>set digits. 0 < x \<and> x < 256"
    and month: "1 \<le> (m1 - 48) * 10 + (m2 - 48)" "(m1 - 48) * 10 + (m2 - 48) \<le> 12"
    and sum: "sum_list (cid_frame SDMF l
                [(DATE_TIME, [m1, m2, d1, d2, h1, h2, n1, n2]), (NUM, digits)]) mod 256 \<noteq> 0"
    and bufs: "length (date data) = 20" "length (call_time data) = 20"
      "length (name data) = 20" "length (number data) = 20"
  shows "\<exists>st' d. decode_spill (calloc_cid fd) st
           (cid_msg SDMF l [(DATE_TIME, [m1, m2, d1, d2, h1, h2, n1, n2]), (NUM, digits)]) data
             = Inr (1, ''Checksum Passed!!'', st', Some d)
           \<and> cstr (number d) = map char_of digits \<and> name d = name data"
proof -
  let ?fr = "cid_frame SDMF l [(DATE_TIME, [m1, m2, d1, d2, h1, h2, n1, n2]), (NUM, digits)]"
  let ?M = "cid_msg SDMF l [(DATE_TIME, [m1, m2, d1, d2, h1, h2, n1, n2]), (NUM, digits)]"
  define ck where "ck = cid_checksum ?fr"
  have fr: "sum_list ?fr = SDMF + l + DATE_TIME + 8 + m1 + m2 + d1 + d2 + h1 + h2 + n1 + n2
                     + NUM + int (length digits) + sum_list digits"
    by (simp add: cid_frame_def cid_field_def)
  have "0 \<le> sum_list ?fr mod 256" by simp
  with sum have "0 < sum_list ?fr mod 256" by linarith
  moreover have "sum_list ?fr mod 256 < 256" by simp
  ultimately have "(256 - sum_list ?fr mod 256) mod 256 = 256 - sum_list ?fr mod 256"
    by (intro mod_pos_pos_trivial) simp_all
  then have ck: "ck = 256 - sum_list ?fr mod 256"
    unfolding ck_def cid_checksum_def .
  have M: "?M = [SDMF, l, DATE_TIME, 8, m1, m2, d1, d2, h1, h2, n1, n2, NUM, int (length digits)] @
            digits @ [ck]"
    by (simp add: cid_msg_def cid_frame_def cid_field_def ck_def)
  have c0: "sawflag (calloc_cid fd) = 0" "length (rawdata (calloc_cid fd)) = 256"
    "cksum (calloc_cid fd) = 0"
    by (simp_all add: calloc_cid_def)
  define st' where "st' = st\<lparr>number_field := 0, msg_type := SDMF, msg_off := 0, data_field := 0\<rparr>"
  from decode_date_number [OF st c0 digits(1,2), of l m1 m2 d1 d2 h1 h2 n1 n2 ck]
  obtain c1 where dec: "decode_bytes (calloc_cid fd) st ?M = Inr (1, ''Checksum Passed!!'', c1, st', [])"
    unfolding M st'_def using ck fr by auto
  have lM: "length ?M \<le> 256" using digits by (simp add: M)
  have "256 - length ?M = Suc (240 - length digits)" using digits by (simp add: M)
  then have sM: "?M @ replicate (256 - length ?M) 0 =
      [SDMF, l, DATE_TIME, 8, m1, m2, d1, d2, h1, h2, n1, n2, NUM, int (length digits)] @ digits @
      [ck, int (length ([] :: int list))] @ [] @ replicate (240 - length digits) 0"
    by (simp add: M)
  from spill_of_fields [OF dec st(2) lM sM _ month digits(2) _ bufs] digits
  show ?thesis
    by (simp add: cstr_field)
qed

theorem C3_sdmf_number_after_date_witness:
  "\<exists>st' d. decode_spill (calloc_cid fskd_example) statics_at_start
     (cid_msg SDMF 0x13 [(DATE_TIME, [48, 49, 48, 53, 49, 52, 51, 50]),
                          (NUM, [53, 53, 53, 49, 50, 51, 52])]) blank_data
       = Inr (1, ''Checksum Passed!!'', st', Some d)
     \<and> cstr (number d) = ''5551234'' \<and> name d = replicate 20 NUL"
  using C3_sdmf_number_after_date [where st = statics_at_start
      and digits = "[53, 53, 53, 49, 50, 51, 52]" and ?m1.0 = 48 and ?m2.0 = 49 and l = "0x13"
      and ?d1.0 = 48 and ?d2.0 = 53 and ?h1.0 = 49 and ?h2.0 = 52 and ?n1.0 = 51 and ?n2.0 = 50
      and data = blank_data and fd = fskd_example]
  by (simp add: statics_at_start_def blank_data_def cid_frame_def cid_field_def char_of_def)

text \<open>
  C3, as the claim states it, fails at its own example. The twelve bytes pass the
  checksum, but \<^verbatim>\<open>get_CID_info\<close> takes bytes 4 and 5, the digits 5 and 5, for the
  month and reads \<^verbatim>\<open>months[54]\<close>. Where bytes 4 and 5 happen to be a month (the
  number 0199999), the extraction goes through and leaves the number field as it was:
  byte 12 is not a marker.
\<close>

theorem C3_counterexample:
  "cid_checksum [0x04, 0x08, 0x02, 0x07, 53, 53, 53, 49, 50, 51, 52] = 0x82
   \<and> decode_outcome (decode_bytes (calloc_cid fskd_example) statics_at_start
       [0x04, 0x08, 0x02, 0x07, 53, 53, 53, 49, 50, 51, 52, 0x82]) =
     Inr (1, ''Checksum Passed!!'', CHECKSUM, 382,
        \<lparr>name_field = 0, number_field = 0, msg_type = SDMF, msg_off = 0, data_field = 0\<rparr>, [])
   \<and> decode_spill (calloc_cid fskd_example) statics_at_start
       [0x04, 0x08, 0x02, 0x07, 53, 53, 53, 49, 50, 51, 52, 0x82] blank_data
     = Inl (Months_Index 54)
   \<and> spill_result (decode_spill (calloc_cid fskd_example) statics_at_start
       (cid_msg SDMF 9 [(NUM, [48, 49, 57, 57, 57, 57, 57])]) blank_data)
     = Inr (1, ''Checksum Passed!!'', Some (''January 99'', ''99 hr : 9l min'', [], []))"
  by (simp add: cid_msg_def cid_frame_def cid_field_def cid_checksum_def
        decode_CID_msg_def calloc_cid_def statics_at_start_def decode_outcome_def spill_result_def
        decode_spill_def get_CID_info_def blank_data_def record_strings_def cstr_def months_def
        sprintf_at_def rd_def copy_chars.simps char_of_def date_text_def time_text_def)

section \<open>Properties of session creation\<close>

text \<open>
  C10: \<^verbatim>\<open>callerid_new\<close> divides 1 by the fraction of the samples per bit with no
  test of the divisor. For every \<^verbatim>\<open>param\<close> whose \<^verbatim>\<open>ispb\<close> is integral the
  divisor is 0 and no session results: \<^verbatim>\<open>pll_round_off\<close> has no defined value (or,
  for an \<^verbatim>\<open>ispb\<close> outside the ints, already \<^verbatim>\<open>fskd.ispb\<close> has none). So a session
  is created only for a non-integral \<^verbatim>\<open>ispb\<close>.
\<close>

theorem C10_integral_ispb_divides_by_zero:
  assumes "ispb_f p \<in> \<int>"
  shows "callerid_new fdiv fskmodem_init flt0 cid_signalling p =
           (if - (2 ^ 31) \<le> \<lfloor>ispb_f p\<rfloor> \<and> \<lfloor>ispb_f p\<rfloor> < 2 ^ 31
            then Inl Division_By_Zero else Inl Int_Conversion)"
proof -
  from assms obtain k where k: "ispb_f p = of_int k" by (auto elim: Ints_cases)
  then show ?thesis
    by (simp add: callerid_new_def float_to_int_def Let_def)
qed

theorem C10_integral_ispb_divides_by_zero_witness:
  "callerid_new (/) id () 0 \<lparr>samp_rate = 48000, baud_rate = 1200, ispb_f = 48000 / 1200\<rparr>
     = Inl Division_By_Zero"
  using C10_integral_ispb_divides_by_zero
          [of "\<lparr>samp_rate = 48000, baud_rate = 1200, ispb_f = 48000 / 1200\<rparr>" "(/)" id "()" 0]
  by simp

end
